theory Spec2Isabelle
  imports Main
begin

section \<open>Characters and the string helpers of the Python library\<close>

text \<open>
  A Python string is modelled as a \<open>string\<close>; a character stands for a code point below
  256.  The three character classes used by the patterns of the converter are the ones
  the \<open>re\<close> module uses on \<open>str\<close> patterns, cut down to that range: \<open>\s\<close> and
  \<open>str.strip()\<close> share \<open>str.isspace\<close>, \<open>\d\<close> is the decimal digits, \<open>\w\<close> is
  \<open>str.isalnum\<close> plus the underscore.
\<close>

definition is_space :: "char \<Rightarrow> bool" where
  "is_space c = (c \<in> set [CHR 0x09, CHR 0x0A, CHR 0x0B, CHR 0x0C, CHR 0x0D,
                            CHR 0x1C, CHR 0x1D, CHR 0x1E, CHR 0x1F, CHR 0x20,
                            CHR 0x85, CHR 0xA0])"

definition is_digit :: "char \<Rightarrow> bool" where
  "is_digit c = (c \<in> set ''0123456789'')"

definition is_word :: "char \<Rightarrow> bool" where
  "is_word c = (let n = (of_char c :: nat) in
      (48 \<le> n \<and> n \<le> 57) \<or> (65 \<le> n \<and> n \<le> 90) \<or> n = 95 \<or> (97 \<le> n \<and> n \<le> 122) \<or>
      n = 170 \<or> n = 178 \<or> n = 179 \<or> n = 181 \<or> n = 185 \<or> n = 186 \<or>
      (188 \<le> n \<and> n \<le> 190) \<or> (192 \<le> n \<and> n \<le> 214) \<or> (216 \<le> n \<and> n \<le> 246) \<or>
      248 \<le> n)"

text \<open>The characters at which \<open>str.splitlines\<close> ends a line.\<close>

definition is_linebreak :: "char \<Rightarrow> bool" where
  "is_linebreak c = (c \<in> set [CHR 0x0A, CHR 0x0B, CHR 0x0C, CHR 0x0D,
                                CHR 0x1C, CHR 0x1D, CHR 0x1E, CHR 0x85])"

text \<open>\<open>s.strip()\<close>, \<open>s.lstrip(chars)\<close> for a one-character set, \<open>sep.join(xs)\<close>.\<close>

definition lstrip :: "string \<Rightarrow> string" where
  "lstrip s = dropWhile is_space s"

definition rstrip :: "string \<Rightarrow> string" where
  "rstrip s = rev (dropWhile is_space (rev s))"

definition strip :: "string \<Rightarrow> string" where
  "strip s = rstrip (lstrip s)"

definition lstrip_char :: "char \<Rightarrow> string \<Rightarrow> string" where
  "lstrip_char c s = dropWhile (\<lambda>x. x = c) s"

fun join :: "string \<Rightarrow> string list \<Rightarrow> string" where
  "join sep [] = []"
| "join sep [x] = x"
| "join sep (x # y # ys) = x @ sep @ join sep (y # ys)"

text \<open>
  \<open>s.splitlines()\<close>: the text is cut at every line boundary, \<open>\r\n\<close> counting as one;
  the boundaries are dropped, blank lines are kept, and no empty line is added after a
  final boundary.  \<open>cur\<close> holds the current line, reversed.
\<close>

fun splitlines_aux :: "string \<Rightarrow> string \<Rightarrow> string list" where
  "splitlines_aux cur [] = (if cur = [] then [] else [rev cur])"
| "splitlines_aux cur (c # cs) =
     (if c = CHR 0x0D then
        (case cs of
           d # ds \<Rightarrow> if d = CHR 0x0A then rev cur # splitlines_aux [] ds
                     else rev cur # splitlines_aux [] cs
         | [] \<Rightarrow> rev cur # splitlines_aux [] cs)
      else if is_linebreak c then rev cur # splitlines_aux [] cs
      else splitlines_aux (c # cur) cs)"

definition splitlines :: "string \<Rightarrow> string list" where
  "splitlines s = splitlines_aux [] s"

text \<open>
  \<open>int(s)\<close> on a run of decimal digits.  The interpreter refuses to convert a string
  of more than \<open>sys.get_int_max_str_digits()\<close> digits and raises \<open>ValueError\<close>; the
  limit is 4300 unless the interpreter was configured otherwise, and leading zeros
  count.  It is the only exception the converter can raise.
\<close>

datatype error = ValueError

definition int_max_str_digits :: nat where
  "int_max_str_digits = 4300"

definition digit_val :: "char \<Rightarrow> int" where
  "digit_val c = int (of_char c) - 48"

definition int_of_digits :: "string \<Rightarrow> error + int" where
  "int_of_digits s =
     (if int_max_str_digits < length s then Inl ValueError
      else Inr (foldl (\<lambda>a c. 10 * a + digit_val c) 0 s))"

text \<open>\<open>str(n)\<close>, which is what an f-string writes for an integer field.\<close>

definition digit_char :: "nat \<Rightarrow> char" where
  "digit_char n = ''0123456789'' ! n"

fun str_nat :: "nat \<Rightarrow> string" where
  "str_nat n = (if n < 10 then [digit_char n] else str_nat (n div 10) @ [digit_char (n mod 10)])"

declare str_nat.simps [simp del]

definition str_int :: "int \<Rightarrow> string" where
  "str_int i = (if i < 0 then CHR ''-'' # str_nat (nat (- i)) else str_nat (nat i))"

text \<open>\<open>s * n\<close> for a string and an integer: empty when \<open>n\<close> is not positive.\<close>

definition str_times :: "string \<Rightarrow> int \<Rightarrow> string" where
  "str_times s n = concat (replicate (nat n) s)"

section \<open>Regular expressions as the \<open>re\<close> module matches them\<close>

text \<open>
  The patterns of the converter use character classes, sequencing, alternation, greedy
  and lazy repetition, capture groups, back-references and the anchors \<open>^\<close> and \<open>$\<close>.
  A pattern is a term of \<open>re\<close>; \<open>matches r st\<close> lists every way \<open>r\<close> can match at the
  state \<open>st\<close>, in the order in which a backtracking matcher tries them, so the head of
  the list is the match \<open>re\<close> reports.  A state is the offset in the subject, the text
  still to be read and the groups captured so far.
\<close>

record mstate =
  pos :: nat
  rest :: string
  grps :: "nat \<Rightarrow> string option"

datatype re =
    Eps
  | Cls "char \<Rightarrow> bool"
  | Seq re re
  | Alt re re
  | Star bool re
  | Grp nat re
  | Ref nat
  | Bol
  | Eol

definition adv :: "nat \<Rightarrow> mstate \<Rightarrow> mstate" where
  "adv k st = st\<lparr>pos := pos st + k, rest := drop k (rest st)\<rparr>"

definition consumed :: "mstate \<Rightarrow> mstate \<Rightarrow> string" where
  "consumed st st' = take (length (rest st) - length (rest st')) (rest st)"

text \<open>
  \<open>Star True r\<close> is the greedy \<open>r*\<close>, \<open>Star False r\<close> the lazy \<open>r*?\<close>.  An
  iteration that consumes nothing ends the repetition; every repeated expression of the
  converter's patterns is a single character class, which always consumes.  \<open>$\<close>
  matches at the end of the subject and before a newline that ends it; \<open>^\<close> matches
  at offset 0 (no pattern is compiled with a flag).
\<close>

function matches :: "re \<Rightarrow> mstate \<Rightarrow> mstate list" where
  "matches Eps st = [st]"
| "matches (Cls P) st =
     (case rest st of
        [] \<Rightarrow> []
      | c # cs \<Rightarrow> if P c then [st\<lparr>pos := Suc (pos st), rest := cs\<rparr>] else [])"
| "matches (Seq a b) st = concat (map (matches b) (matches a st))"
| "matches (Alt a b) st = matches a st @ matches b st"
| "matches (Star g r) st =
     (let more = concat (map (\<lambda>st'. if length (rest st') < length (rest st)
                                      then matches (Star g r) st' else [])
                             (matches r st))
      in if g then more @ [st] else st # more)"
| "matches (Grp n r) st =
     map (\<lambda>st'. st'\<lparr>grps := (grps st')(n \<mapsto> consumed st st')\<rparr>) (matches r st)"
| "matches (Ref n) st =
     (case grps st n of
        None \<Rightarrow> []
      | Some g \<Rightarrow> if take (length g) (rest st) = g then [adv (length g) st] else [])"
| "matches Bol st = (if pos st = 0 then [st] else [])"
| "matches Eol st = (if rest st = [] \<or> rest st = [CHR 0x0A] then [st] else [])"
  by pat_completeness auto
termination
  by (relation "measure size <*lex*> measure (\<lambda>st. length (rest st))") auto

text \<open>The derived forms: a literal character, a literal string, \<open>r+\<close>, \<open>r?\<close>, \<open>r{1,n}\<close>.\<close>

definition Chr :: "char \<Rightarrow> re" where
  "Chr c = Cls (\<lambda>x. x = c)"

definition Lit :: "string \<Rightarrow> re" where
  "Lit s = foldr (\<lambda>c r. Seq (Chr c) r) s Eps"

definition Plus :: "bool \<Rightarrow> re \<Rightarrow> re" where
  "Plus g r = Seq r (Star g r)"

definition Opt :: "re \<Rightarrow> re" where
  "Opt r = Alt r Eps"

fun upto_times :: "nat \<Rightarrow> re \<Rightarrow> re" where
  "upto_times 0 r = Eps"
| "upto_times (Suc n) r = Opt (Seq r (upto_times n r))"

definition seqs :: "re list \<Rightarrow> re" where
  "seqs rs = foldr Seq rs Eps"

definition Dot :: re where
  "Dot = Cls (\<lambda>c. c \<noteq> CHR 0x0A)"

text \<open>\<open>pattern.match(s)\<close>: the first match at offset 0, if any.\<close>

definition re_match :: "re \<Rightarrow> string \<Rightarrow> mstate option" where
  "re_match r s =
     (case matches r \<lparr>pos = 0, rest = s, grps = Map.empty\<rparr> of
        [] \<Rightarrow> None
      | m # _ \<Rightarrow> Some m)"

text \<open>
  \<open>m.group(k)\<close>.  Every group the parser reads takes part in each match of its pattern,
  but for the language tag of an opening fence, where the source writes \<open>or ''\<close>: so the
  empty string stands for a group that did not take part.
\<close>

definition group :: "mstate \<Rightarrow> nat \<Rightarrow> string" where
  "group m k = (case grps m k of None \<Rightarrow> [] | Some s \<Rightarrow> s)"

text \<open>
  \<open>pattern.sub(template, s)\<close>: the subject is scanned from the left; where the pattern
  matches, the expanded template is written and the scan goes on after the match;
  elsewhere one character is copied.  A template is literal text and group references;
  a group that did not take part expands to the empty string.
\<close>

datatype titem = TLit string | TGrp nat

fun expand :: "titem list \<Rightarrow> mstate \<Rightarrow> string" where
  "expand [] m = []"
| "expand (TLit s # ts) m = s @ expand ts m"
| "expand (TGrp k # ts) m = group m k @ expand ts m"

function re_sub_from :: "re \<Rightarrow> titem list \<Rightarrow> nat \<Rightarrow> string \<Rightarrow> string" where
  "re_sub_from r tm p s =
     (case matches r \<lparr>pos = p, rest = s, grps = Map.empty\<rparr> of
        [] \<Rightarrow> (case s of [] \<Rightarrow> [] | c # cs \<Rightarrow> c # re_sub_from r tm (Suc p) cs)
      | m # _ \<Rightarrow>
          if length (rest m) < length s
          then expand tm m @ re_sub_from r tm (pos m) (rest m)
          else expand tm m @
               (case s of [] \<Rightarrow> [] | c # cs \<Rightarrow> c # re_sub_from r tm (Suc p) cs))"
  by pat_completeness auto
termination
  by (relation "measure (\<lambda>(r, tm, p, s). length s)") auto

declare re_sub_from.simps [simp del]

definition re_sub :: "re \<Rightarrow> titem list \<Rightarrow> string \<Rightarrow> string" where
  "re_sub r tm s = re_sub_from r tm 0 s"

section \<open>Lexer\<close>

definition tokenize :: "string \<Rightarrow> string list" where
  "tokenize markdown = splitlines markdown"

section \<open>Blocks\<close>

text \<open>
  A block is a dictionary with the key \<open>type\<close> and, depending on the type, the keys
  \<open>level\<close>, \<open>content\<close>, \<open>language\<close>, \<open>indent\<close> and \<open>number\<close>: a field is \<open>None\<close>
  when the dictionary has no such key.
\<close>

record block =
  btype :: "string option"
  level :: "int option"
  content :: "string option"
  language :: "string option"
  indent :: "int option"
  number :: "int option"

definition no_keys :: block where
  "no_keys = \<lparr>btype = None, level = None, content = None, language = None,
              indent = None, number = None\<rparr>"

definition hr_block :: block where
  "hr_block = no_keys\<lparr>btype := Some ''hr''\<rparr>"

definition heading_block :: "int \<Rightarrow> string \<Rightarrow> block" where
  "heading_block lv c = no_keys\<lparr>btype := Some ''heading'', level := Some lv, content := Some c\<rparr>"

definition code_block :: "string \<Rightarrow> string \<Rightarrow> block" where
  "code_block lang code =
     no_keys\<lparr>btype := Some ''code_block'', language := Some lang, content := Some code\<rparr>"

definition blockquote_block :: "int \<Rightarrow> string \<Rightarrow> block" where
  "blockquote_block lv c =
     no_keys\<lparr>btype := Some ''blockquote'', level := Some lv, content := Some c\<rparr>"

definition ul_block :: "int \<Rightarrow> string \<Rightarrow> block" where
  "ul_block ind c = no_keys\<lparr>btype := Some ''ul'', indent := Some ind, content := Some c\<rparr>"

definition ol_block :: "int \<Rightarrow> int \<Rightarrow> string \<Rightarrow> block" where
  "ol_block ind n c =
     no_keys\<lparr>btype := Some ''ol'', indent := Some ind, number := Some n, content := Some c\<rparr>"

definition paragraph_block :: "string \<Rightarrow> block" where
  "paragraph_block c = no_keys\<lparr>btype := Some ''paragraph'', content := Some c\<rparr>"

section \<open>Parser\<close>

text \<open>The seven patterns of \<open>parser.py\<close>, in the order of the source.\<close>

definition RE_HR :: re where
  "RE_HR = seqs [Bol, Star True (Cls is_space),
                 Grp 1 (Alt (Lit ''***'') (Alt (Lit ''---'') (Lit ''___''))),
                 Star True (Cls is_space), Eol]"

definition RE_FENCE_START :: re where
  "RE_FENCE_START = seqs [Bol, Lit ''```'', Opt (Grp 1 (Plus True (Cls is_word))),
                          Star True (Cls is_space), Eol]"

definition RE_FENCE_END :: re where
  "RE_FENCE_END = seqs [Bol, Lit ''```'', Star True (Cls is_space), Eol]"

definition RE_BLOCKQUOTE :: re where
  "RE_BLOCKQUOTE = seqs [Bol, Star True (Cls is_space), Plus True (Chr (CHR ''>'')),
                         Opt (Cls is_space), Grp 1 (Star True Dot), Eol]"

definition RE_UNORDERED :: re where
  "RE_UNORDERED = seqs [Bol, Grp 1 (Star True (Cls is_space)),
                        Grp 2 (Cls (\<lambda>c. c \<in> set ''-*+'')),
                        Plus True (Cls is_space), Grp 3 (Star True Dot), Eol]"

definition RE_ORDERED :: re where
  "RE_ORDERED = seqs [Bol, Grp 1 (Star True (Cls is_space)), Grp 2 (Plus True (Cls is_digit)),
                      Chr (CHR ''.''), Plus True (Cls is_space), Grp 3 (Star True Dot), Eol]"

definition RE_HEADING :: re where
  "RE_HEADING = seqs [Bol, Grp 1 (Seq (Chr (CHR ''#'')) (upto_times 5 (Chr (CHR ''#'')))),
                      Star True (Cls is_space), Grp 2 (Star True Dot), Eol]"

text \<open>
  The cursor \<open>i\<close> of the source only moves forward, so the parser is a function of the
  lines from the cursor on.  Each inner loop returns what it collected and the lines
  left.  The loop of a fenced block stops in front of the closing fence or at the end.
\<close>

fun fence_loop :: "string list \<Rightarrow> string list \<Rightarrow> string list \<times> string list" where
  "fence_loop code_lines [] = (code_lines, [])"
| "fence_loop code_lines (t # ts) =
     (if re_match RE_FENCE_END t \<noteq> None then (code_lines, t # ts)
      else fence_loop (code_lines @ [t]) ts)"

text \<open>The loop of a blockquote: \<open>line\<close> is the line at the cursor, already matched.\<close>

definition blockquote_of :: "string \<Rightarrow> block" where
  "blockquote_of line =
     (let level = int (length line) - int (length (lstrip_char (CHR ''>'') line));
          content = strip (lstrip_char (CHR ''>'') line);
          level = (if level = 0 then 1 else level)
      in blockquote_block level content)"

fun blockquote_loop :: "string \<Rightarrow> string list \<Rightarrow> block list \<times> string list" where
  "blockquote_loop line [] = ([blockquote_of line], [])"
| "blockquote_loop line (t # ts) =
     (if re_match RE_BLOCKQUOTE t = None then ([blockquote_of line], t # ts)
      else (case blockquote_loop t ts of (bs, left) \<Rightarrow> (blockquote_of line # bs, left)))"

text \<open>The loop of a paragraph stops at a blank line and at a line that starts a block.\<close>

definition starts_block :: "string \<Rightarrow> bool" where
  "starts_block nxt =
     (re_match RE_HR nxt \<noteq> None \<or> re_match RE_HEADING nxt \<noteq> None \<or>
      re_match RE_FENCE_START nxt \<noteq> None \<or> re_match RE_BLOCKQUOTE nxt \<noteq> None \<or>
      re_match RE_UNORDERED nxt \<noteq> None \<or> re_match RE_ORDERED nxt \<noteq> None)"

fun paragraph_loop :: "string list \<Rightarrow> string list \<Rightarrow> string list \<times> string list" where
  "paragraph_loop para_lines [] = (para_lines, [])"
| "paragraph_loop para_lines (nxt # ts) =
     (if strip nxt = [] then (para_lines, nxt # ts)
      else if starts_block nxt then (para_lines, nxt # ts)
      else paragraph_loop (para_lines @ [strip nxt]) ts)"

text \<open>
  The blocks appended in one pass of the loop, followed by what the rest of the loop
  appends.  An exception raised in a later pass ends the call, and the blocks collected
  so far are lost with it.
\<close>

definition prepend :: "'a list \<Rightarrow> error + 'a list \<Rightarrow> error + 'a list" where
  "prepend xs r = (case r of Inl e \<Rightarrow> Inl e | Inr ys \<Rightarrow> Inr (xs @ ys))"

function parse :: "string list \<Rightarrow> error + block list" where
  "parse [] = Inr []"
| "parse (line # ts) =
     (if re_match RE_HR line \<noteq> None then prepend [hr_block] (parse ts)
      else case re_match RE_HEADING line of
        Some m \<Rightarrow>
          prepend [heading_block (int (length (group m 1))) (strip (group m 2))] (parse ts)
      | None \<Rightarrow>
      (case re_match RE_FENCE_START line of
        Some m \<Rightarrow>
          (case fence_loop [] ts of
             (code_lines, left) \<Rightarrow>
               prepend [code_block (group m 1) (join [CHR 0x0A] code_lines)]
                 (parse (drop 1 left)))
      | None \<Rightarrow>
      (if re_match RE_BLOCKQUOTE line \<noteq> None
       then (case blockquote_loop line ts of (bs, left) \<Rightarrow> prepend bs (parse left))
       else case re_match RE_UNORDERED line of
        Some m \<Rightarrow>
          prepend [ul_block (int (length (group m 1))) (strip (group m 3))] (parse ts)
      | None \<Rightarrow>
      (case re_match RE_ORDERED line of
        Some m \<Rightarrow>
          (case int_of_digits (group m 2) of
             Inl e \<Rightarrow> Inl e
           | Inr n \<Rightarrow>
               prepend [ol_block (int (length (group m 1))) n (strip (group m 3))]
                 (parse ts))
      | None \<Rightarrow>
      (if strip line = [] then parse ts
       else (case paragraph_loop [strip line] ts of
               (para_lines, left) \<Rightarrow>
                 prepend [paragraph_block (join '' '' para_lines)] (parse left)))))))"
  by pat_completeness auto
termination
proof -
  have fence_left: "fence_loop acc ts = (c, left) \<Longrightarrow> length left \<le> length ts"
    for acc ts c left
  proof (induction ts arbitrary: acc)
    case Nil
    then show ?case by simp
  next
    case (Cons t ts)
    show ?case
    proof (cases "re_match RE_FENCE_END t \<noteq> None")
      case True
      with Cons.prems show ?thesis by auto
    next
      case False
      with Cons.prems have "fence_loop (acc @ [t]) ts = (c, left)" by simp
      from Cons.IH [OF this] show ?thesis by simp
    qed
  qed
  have quote_left: "blockquote_loop l ts = (bs, left) \<Longrightarrow> length left \<le> length ts"
    for l ts bs left
  proof (induction ts arbitrary: l bs left)
    case Nil
    then show ?case by simp
  next
    case (Cons t ts)
    show ?case
    proof (cases "re_match RE_BLOCKQUOTE t = None")
      case True
      with Cons.prems show ?thesis by auto
    next
      case False
      obtain bs' left' where eq: "blockquote_loop t ts = (bs', left')"
        by (cases "blockquote_loop t ts")
      with False Cons.prems have "left = left'" by auto
      with Cons.IH [OF eq] show ?thesis by simp
    qed
  qed
  have para_left: "paragraph_loop acc ts = (ps, left) \<Longrightarrow> length left \<le> length ts"
    for acc ts ps left
  proof (induction ts arbitrary: acc)
    case Nil
    then show ?case by simp
  next
    case (Cons t ts)
    show ?case
    proof (cases "strip t = [] \<or> starts_block t")
      case True
      with Cons.prems show ?thesis by (auto split: if_splits)
    next
      case False
      with Cons.prems have "paragraph_loop (acc @ [strip t]) ts = (ps, left)" by simp
      from Cons.IH [OF this] show ?thesis by simp
    qed
  qed
  show ?thesis
  proof (relation "measure length", simp_all, goal_cases)
    case (1 line ts bs left)
    from quote_left [OF "1"(5) [symmetric]] show ?case by simp
  next
    case (2 line ts para_lines left)
    from para_left [OF "2"(8) [symmetric]] show ?case by simp
  next
    case (3 line ts m code_lines left)
    from fence_left [OF "3"(4) [symmetric]] show ?case by simp
  qed
qed

declare parse.simps(2) [simp del]

section \<open>Inline processor\<close>

text \<open>The five patterns of \<open>inline_parser.py\<close> and the templates they are replaced by.\<close>

definition dq :: string where
  "dq = [CHR 0x22]"

definition RE_BOLD :: re where
  "RE_BOLD = seqs [Grp 1 (Alt (Lit ''**'') (Lit ''__'')), Grp 2 (Plus False Dot), Ref 1]"

definition RE_ITALIC :: re where
  "RE_ITALIC = seqs [Grp 1 (Alt (Chr (CHR ''*'')) (Chr (CHR ''_''))), Grp 2 (Plus False Dot),
                     Ref 1]"

definition RE_CODE :: re where
  "RE_CODE = seqs [Chr (CHR ''`''), Grp 1 (Plus False (Cls (\<lambda>c. c \<noteq> CHR ''`''))),
                   Chr (CHR ''`'')]"

definition RE_LINK :: re where
  "RE_LINK = seqs [Chr (CHR ''[''), Grp 1 (Plus False (Cls (\<lambda>c. c \<noteq> CHR '']''))),
                   Chr (CHR '']''), Chr (CHR ''(''),
                   Grp 2 (Plus False (Cls (\<lambda>c. c \<noteq> CHR '')''))), Chr (CHR '')'')]"

definition RE_IMAGE :: re where
  "RE_IMAGE = seqs [Chr (CHR ''!''), Chr (CHR ''[''),
                    Grp 1 (Star False (Cls (\<lambda>c. c \<noteq> CHR '']''))),
                    Chr (CHR '']''), Chr (CHR ''(''),
                    Grp 2 (Plus False (Cls (\<lambda>c. c \<noteq> CHR '')''))), Chr (CHR '')'')]"

definition sub_image :: "string \<Rightarrow> string" where
  "sub_image = re_sub RE_IMAGE
     [TLit (''<img src='' @ dq), TGrp 2, TLit (dq @ '' alt='' @ dq), TGrp 1, TLit (dq @ ''/>'')]"

definition sub_link :: "string \<Rightarrow> string" where
  "sub_link = re_sub RE_LINK
     [TLit (''<a href='' @ dq), TGrp 2, TLit (dq @ ''>''), TGrp 1, TLit ''</a>'']"

definition sub_code :: "string \<Rightarrow> string" where
  "sub_code = re_sub RE_CODE [TLit ''<code>'', TGrp 1, TLit ''</code>'']"

definition sub_bold :: "string \<Rightarrow> string" where
  "sub_bold = re_sub RE_BOLD [TLit ''<strong>'', TGrp 2, TLit ''</strong>'']"

definition sub_italic :: "string \<Rightarrow> string" where
  "sub_italic = re_sub RE_ITALIC [TLit ''<em>'', TGrp 2, TLit ''</em>'']"

definition replace_inline :: "string \<Rightarrow> string" where
  "replace_inline text =
     (let text = sub_image text;
          text = sub_link text;
          text = sub_code text;
          text = sub_bold text;
          text = sub_italic text
      in text)"

text \<open>
  The source rewrites the \<open>content\<close> entry of every dictionary that has one, in place,
  and returns the list it was given.
\<close>

definition process_block :: "block \<Rightarrow> block" where
  "process_block b =
     (case content b of
        None \<Rightarrow> b
      | Some c \<Rightarrow> b\<lparr>content := Some (replace_inline c)\<rparr>)"

definition process_inline :: "block list \<Rightarrow> block list" where
  "process_inline blocks = map process_block blocks"

section \<open>Renderer\<close>

text \<open>\<open>html.escape\<close> with its default \<open>quote=True\<close>: five replacements, \<open>&\<close> first.\<close>

definition replace_char :: "char \<Rightarrow> string \<Rightarrow> string \<Rightarrow> string" where
  "replace_char c r s = concat (map (\<lambda>x. if x = c then r else [x]) s)"

definition escape :: "string \<Rightarrow> string" where
  "escape text =
     (let s = replace_char (CHR ''&'') ''&amp;'' text;
          s = replace_char (CHR ''<'') ''&lt;'' s;
          s = replace_char (CHR ''>'') ''&gt;'' s;
          s = replace_char (CHR 0x22) ''&quot;'' s;
          s = replace_char (CHR 0x27) ''&#x27;'' s
      in s)"

text \<open>\<open>block.get(key, default)\<close>.\<close>

definition get_str :: "string option \<Rightarrow> string \<Rightarrow> string" where
  "get_str v d = (case v of None \<Rightarrow> d | Some s \<Rightarrow> s)"

definition get_int :: "int option \<Rightarrow> int \<Rightarrow> int" where
  "get_int v d = (case v of None \<Rightarrow> d | Some i \<Rightarrow> i)"

text \<open>What one pass of the loop of \<open>render\<close> appends: nothing for an unknown type.\<close>

definition render_block :: "block \<Rightarrow> string" where
  "render_block b =
     (if btype b = Some ''heading'' then
        (let lv = get_int (level b) 1; c = get_str (content b) []
         in ''<h'' @ str_int lv @ ''>'' @ c @ ''</h'' @ str_int lv @ ''>'')
      else if btype b = Some ''paragraph'' then
        ''<p>'' @ get_str (content b) [] @ ''</p>''
      else if btype b = Some ''hr'' then ''<hr/>''
      else if btype b = Some ''code_block'' then
        (let lang = get_str (language b) []; code = get_str (content b) []
         in if lang \<noteq> []
            then ''<pre><code class='' @ dq @ ''language-'' @ lang @ dq @ ''>'' @ escape code
                 @ ''</code></pre>''
            else ''<pre><code>'' @ escape code @ ''</code></pre>'')
      else if btype b = Some ''blockquote'' then
        (let c = get_str (content b) []; lv = get_int (level b) 1
         in str_times ''<blockquote>'' lv @ c @ str_times ''</blockquote>'' lv)
      else if btype b = Some ''ul'' then
        ''<ul><li>'' @ get_str (content b) [] @ ''</li></ul>''
      else if btype b = Some ''ol'' then
        ''<ol><li>'' @ get_str (content b) [] @ ''</li></ol>''
      else [])"

definition render :: "block list \<Rightarrow> string" where
  "render blocks = concat (map render_block blocks)"

section \<open>Converter\<close>

text \<open>An exception of the parser leaves \<open>convert\<close> as it is: nothing catches it.\<close>

definition convert :: "string \<Rightarrow> error + string" where
  "convert markdown =
     (if markdown = [] \<or> strip markdown = [] then Inr []
      else case parse (tokenize markdown) of
             Inl e \<Rightarrow> Inl e
           | Inr blocks \<Rightarrow> Inr (render (process_inline blocks)))"

section \<open>Notions used in the proofs\<close>

definition run :: "('a \<Rightarrow> bool) \<Rightarrow> 'a list \<Rightarrow> nat" where
  "run P s = length (takeWhile P s)"

definition needs :: "(char \<Rightarrow> bool) \<Rightarrow> re \<Rightarrow> bool" where
  "needs Q r = (\<forall>s. matches r s \<noteq> [] \<longrightarrow> rest s \<noteq> [] \<and> Q (hd (rest s)))"

definition setg :: "nat \<Rightarrow> string \<Rightarrow> mstate \<Rightarrow> mstate" where
  "setg n w st = st\<lparr>grps := (grps st)(n \<mapsto> w)\<rparr>"

definition rejects :: "(char \<Rightarrow> bool) \<Rightarrow> re \<Rightarrow> bool" where
  "rejects P r = (\<forall>s. rest s \<noteq> [] \<and> P (hd (rest s)) \<longrightarrow> matches r s = [])"

definition start :: "string \<Rightarrow> mstate" where
  "start l = \<lparr>pos = 0, rest = l, grps = Map.empty\<rparr>"

text \<open>A line of exactly three backticks, with optional whitespace after them.\<close>

definition closing_fence :: "string \<Rightarrow> bool" where
  "closing_fence t = (take 3 t = ''```'' \<and> list_all is_space (drop 3 t))"

text \<open>
  What the parser stores for a line that matches the pattern of an unordered item: the
  length of the first group and the stripped third group of the match.
\<close>

definition ul_indent :: "string \<Rightarrow> int" where
  "ul_indent l = int (length (group (the (re_match RE_UNORDERED l)) 1))"

definition ul_text :: "string \<Rightarrow> string" where
  "ul_text l = strip (group (the (re_match RE_UNORDERED l)) 3)"

definition heads :: "'a list \<Rightarrow> 'a \<Rightarrow> bool" where
  "heads xs x = (\<exists>ys. xs = x # ys)"

text \<open>The last two steps of \<open>convert\<close> on what the parser returned.\<close>

definition rendered :: "error + block list \<Rightarrow> error + string" where
  "rendered r =
     (case r of Inl e \<Rightarrow> Inl e | Inr blocks \<Rightarrow> Inr (render (process_inline blocks)))"






section \<open>Facts about matching\<close>

lemma adv_0 [simp]: "adv 0 st = st"
  by (simp add: adv_def)

lemma adv_adv [simp]: "adv k (adv j st) = adv (j + k) st"
  by (simp add: adv_def add.assoc add.commute)

lemma rest_adv [simp]: "rest (adv k st) = drop k (rest st)"
  by (simp add: adv_def)

lemma pos_adv [simp]: "pos (adv k st) = pos st + k"
  by (simp add: adv_def)

lemma grps_adv [simp]: "grps (adv k st) = grps st"
  by (simp add: adv_def)

lemma matches_Cls: "matches (Cls P) st = (if rest st \<noteq> [] \<and> P (hd (rest st)) then [adv 1 st] else [])"
  by (cases "rest st") (auto simp: adv_def)

lemma rev_upt_Suc: "rev [0..<Suc (Suc n)] = map Suc (rev [0..<Suc n]) @ [0]"
proof -
  have "[0..<Suc (Suc n)] = 0 # map Suc [0..<Suc n]"
    by (metis map_Suc_upt upt_conv_Cons zero_less_Suc)
  then show ?thesis by (simp only: rev.simps rev_map)
qed

lemma matches_Star_Cls_greedy:
  "matches (Star True (Cls P)) st = map (\<lambda>k. adv k st) (rev [0..<Suc (run P (rest st))])"
proof (induction "rest st" arbitrary: st)
  case Nil
  then show ?case by (simp add: run_def)
next
  case (Cons c cs)
  show ?case
  proof (cases "P c")
    case False
    with Cons(2) [symmetric] show ?thesis by (simp add: run_def)
  next
    case True
    let ?s1 = "st\<lparr>pos := Suc (pos st), rest := cs\<rparr>"
    have r1: "cs = rest ?s1" by simp
    have a: "\<And>k. adv k ?s1 = adv (Suc k) st"
      using Cons(2) [symmetric] by (simp add: adv_def)
    have "matches (Star True (Cls P)) st = matches (Star True (Cls P)) ?s1 @ [st]"
      using Cons(2) [symmetric] True by simp
    also have "matches (Star True (Cls P)) ?s1 = map (\<lambda>k. adv k ?s1) (rev [0..<Suc (run P cs)])"
      using Cons(1) [OF r1] by simp
    finally show ?thesis
      using Cons(2) [symmetric] True
      by (simp add: run_def a rev_upt_Suc comp_def del: upt_Suc matches.simps)
  qed
qed

lemma matches_Star_Cls_lazy:
  "matches (Star False (Cls P)) st = map (\<lambda>k. adv k st) [0..<Suc (run P (rest st))]"
proof (induction "rest st" arbitrary: st)
  case Nil
  then show ?case by (simp add: run_def)
next
  case (Cons c cs)
  show ?case
  proof (cases "P c")
    case False
    with Cons(2) [symmetric] show ?thesis by (simp add: run_def)
  next
    case True
    let ?s1 = "st\<lparr>pos := Suc (pos st), rest := cs\<rparr>"
    have r1: "cs = rest ?s1" by simp
    have a: "\<And>k. adv k ?s1 = adv (Suc k) st"
      using Cons(2) [symmetric] by (simp add: adv_def)
    have "matches (Star False (Cls P)) st = st # matches (Star False (Cls P)) ?s1"
      using Cons(2) [symmetric] True by simp
    also have "matches (Star False (Cls P)) ?s1 = map (\<lambda>k. adv k ?s1) [0..<Suc (run P cs)]"
      using Cons(1) [OF r1] by simp
    finally show ?thesis
      using Cons(2) [symmetric] True
      apply (simp add: run_def a del: upt_Suc matches.simps)
      apply (subst (2) upt_conv_Cons) apply simp
      apply (simp add: map_Suc_upt [symmetric] comp_def del: upt_Suc)
      done
  qed
qed

declare matches.simps(2) [simp del] matches.simps(5) [simp del]
declare matches_Cls [simp]

lemma drop_run: "drop (run P s) s = dropWhile P s"
  unfolding run_def by (induction s) auto

lemma take_run: "take (run P s) s = takeWhile P s"
  unfolding run_def by (induction s) auto

lemma run_le: "run P s \<le> length s"
  unfolding run_def by (rule length_takeWhile_le)

lemma run_nth: "k < run P s \<Longrightarrow> P (s ! k)"
  unfolding run_def by (metis nth_mem set_takeWhileD takeWhile_nth)

lemma concat_map_rev_upt_last:
  "(\<And>k. k < n \<Longrightarrow> f k = []) \<Longrightarrow> concat (map f (rev [0..<Suc n])) = f n"
proof -
  assume e: "\<And>k. k < n \<Longrightarrow> f k = []"
  have "concat (map f (rev [0..<Suc n])) = f n @ concat (map f (rev [0..<n]))" by simp
  moreover have "concat (map f (rev [0..<n])) = []" using e by simp
  ultimately show ?thesis by simp
qed

lemma needsD: "needs Q r \<Longrightarrow> matches r s \<noteq> [] \<Longrightarrow> rest s \<noteq> [] \<and> Q (hd (rest s))"
  by (simp add: needs_def)

lemma needs_Cls: "needs Q (Cls Q)"
  by (auto simp: needs_def split: list.splits if_splits)

lemma needs_Seq: "needs Q a \<Longrightarrow> needs Q (Seq a r)"
proof -
  have "matches a s \<noteq> []" if "matches (Seq a r) s \<noteq> []" for s
    using that by auto
  then show "needs Q a \<Longrightarrow> needs Q (Seq a r)"
    unfolding needs_def by blast
qed

lemma needs_Grp: "needs Q a \<Longrightarrow> needs Q (Grp n a)"
  by (auto simp: needs_def)

lemma needs_Alt: "needs Q a \<Longrightarrow> needs Q b \<Longrightarrow> needs Q (Alt a b)"
  by (auto simp: needs_def)

lemma needs_mono: "needs Q r \<Longrightarrow> (\<And>c. Q c \<Longrightarrow> Q' c) \<Longrightarrow> needs Q' r"
  by (auto simp: needs_def)

lemma needs_Chr: "needs (\<lambda>x. x = c) (Chr c)"
  unfolding Chr_def by (rule needs_Cls)

lemma needs_Plus: "needs Q a \<Longrightarrow> needs Q (Plus g a)"
  unfolding Plus_def by (rule needs_Seq)

lemma needs_Lit: "needs (\<lambda>x. x = c) (Lit (c # w))"
  unfolding Lit_def by (simp add: needs_Seq needs_Chr)

lemma needs_seqs: "needs Q a \<Longrightarrow> needs Q (seqs (a # rs))"
  unfolding seqs_def by (simp add: needs_Seq)

lemma seqs_Cons: "seqs (a # rs) = Seq a (seqs rs)"
  by (simp add: seqs_def)

lemma seqs_Nil: "seqs [] = Eps"
  by (simp add: seqs_def)

lemma star_collapse:
  assumes "needs Q r" and "\<And>c. Q c \<Longrightarrow> \<not> P c"
  shows "matches (Seq (Star True (Cls P)) r) st = matches r (adv (run P (rest st)) st)"
proof -
  have "matches r (adv k st) = []" if "k < run P (rest st)" for k
  proof (rule ccontr)
    assume "matches r (adv k st) \<noteq> []"
    from needsD [OF assms(1) this] have "Q (hd (drop k (rest st)))" by simp
    moreover from that run_le [of P "rest st"] have "k < length (rest st)" by simp
    ultimately have "Q (rest st ! k)" by (simp add: hd_drop_conv_nth)
    with assms(2) run_nth [OF that] show False by blast
  qed
  then show ?thesis
    by (simp add: matches_Star_Cls_greedy comp_def concat_map_rev_upt_last del: upt_Suc)
qed

lemma rest_setg [simp]: "rest (setg n w st) = rest st"
  by (simp add: setg_def)

lemma pos_setg [simp]: "pos (setg n w st) = pos st"
  by (simp add: setg_def)

lemma grps_setg [simp]: "grps (setg n w st) = (grps st)(n \<mapsto> w)"
  by (simp add: setg_def)

lemma consumed_adv: "k \<le> length (rest st) \<Longrightarrow> consumed st (adv k st) = take k (rest st)"
  by (simp add: consumed_def)

lemma matches_Grp_setg:
  "matches (Grp n r) st = map (\<lambda>st'. setg n (consumed st st') st') (matches r st)"
  by (simp add: setg_def)

lemma grp_star_collapse:
  assumes "needs Q r" and "\<And>c. Q c \<Longrightarrow> \<not> P c"
  shows "matches (Seq (Grp n (Star True (Cls P))) r) st =
         matches r (setg n (takeWhile P (rest st)) (adv (run P (rest st)) st))"
proof -
  let ?f = "\<lambda>k. matches r (setg n (consumed st (adv k st)) (adv k st))"
  have "?f k = []" if "k < run P (rest st)" for k
  proof (rule ccontr)
    assume "?f k \<noteq> []"
    from needsD [OF assms(1) this] have "Q (hd (drop k (rest st)))" by simp
    moreover from that run_le [of P "rest st"] have "k < length (rest st)" by simp
    ultimately have "Q (rest st ! k)" by (simp add: hd_drop_conv_nth)
    with assms(2) run_nth [OF that] show False by blast
  qed
  then have "concat (map ?f (rev [0..<Suc (run P (rest st))])) = ?f (run P (rest st))"
    by (rule concat_map_rev_upt_last)
  then show ?thesis
    by (simp add: matches_Grp_setg matches_Star_Cls_greedy comp_def consumed_adv run_le take_run
             setg_def del: upt_Suc)
qed

lemma needs_rejects: "needs Q r \<Longrightarrow> (\<And>c. Q c \<Longrightarrow> \<not> P c) \<Longrightarrow> rejects P r"
  unfolding needs_def rejects_def by blast

lemma rejects_adv:
  assumes "rejects P r" and "k < run P (rest st)" and "rest s = drop k (rest st)"
  shows "matches r s = []"
proof -
  from assms(2) run_le [of P "rest st"] have k: "k < length (rest st)" by simp
  then have "hd (drop k (rest st)) = rest st ! k" by (simp add: hd_drop_conv_nth)
  with run_nth [OF assms(2)] k assms(1,3) show ?thesis by (simp add: rejects_def)
qed

lemma star_rejects:
  assumes "rejects P r"
  shows "matches (Seq (Star True (Cls P)) r) st = matches r (adv (run P (rest st)) st)"
proof -
  have "matches r (adv k st) = []" if "k < run P (rest st)" for k
    using rejects_adv [OF assms that] by simp
  then show ?thesis
    by (simp add: matches_Star_Cls_greedy comp_def concat_map_rev_upt_last del: upt_Suc)
qed

lemma grp_star_rejects:
  assumes "rejects P r"
  shows "matches (Seq (Grp n (Star True (Cls P))) r) st =
         matches r (setg n (takeWhile P (rest st)) (adv (run P (rest st)) st))"
proof -
  let ?f = "\<lambda>k. matches r (setg n (consumed st (adv k st)) (adv k st))"
  have "?f k = []" if "k < run P (rest st)" for k
    using rejects_adv [OF assms that] by simp
  then have "concat (map ?f (rev [0..<Suc (run P (rest st))])) = ?f (run P (rest st))"
    by (rule concat_map_rev_upt_last)
  then show ?thesis
    by (simp add: matches_Grp_setg matches_Star_Cls_greedy comp_def consumed_adv run_le take_run
             setg_def del: upt_Suc)
qed

lemma run_Cons: "run P (c # cs) = (if P c then Suc (run P cs) else 0)"
  by (simp add: run_def)

lemma adv_1_Cons: "rest st = c # cs \<Longrightarrow> adv k (adv 1 st) = adv (Suc k) st"
  by simp

lemma plus_rejects:
  assumes "rejects P r"
  shows "matches (Seq (Plus True (Cls P)) r) st =
         (if run P (rest st) = 0 then [] else matches r (adv (run P (rest st)) st))"
proof (cases "rest st")
  case Nil
  then show ?thesis by (simp add: Plus_def run_def)
next
  case (Cons c cs)
  show ?thesis
  proof (cases "P c")
    case False
    with Cons show ?thesis by (simp add: Plus_def run_def)
  next
    case True
    have "matches (Seq (Plus True (Cls P)) r) st = matches (Seq (Star True (Cls P)) r) (adv 1 st)"
      using Cons True by (simp add: Plus_def matches_Cls del: One_nat_def)
    also have "\<dots> = matches r (adv (run P (rest (adv 1 st))) (adv 1 st))"
      by (rule star_rejects [OF assms])
    also have "\<dots> = matches r (adv (Suc (run P cs)) st)"
      using Cons by simp
    finally show ?thesis using Cons True by (simp add: run_Cons)
  qed
qed

lemma grp_plus_rejects:
  assumes "rejects P r"
  shows "matches (Seq (Grp n (Plus True (Cls P))) r) st =
         (if run P (rest st) = 0 then []
          else matches r (setg n (takeWhile P (rest st)) (adv (run P (rest st)) st)))"
proof (cases "rest st")
  case Nil
  then show ?thesis by (simp add: Plus_def run_def)
next
  case (Cons c cs)
  show ?thesis
  proof (cases "P c")
    case False
    with Cons show ?thesis by (simp add: Plus_def run_def)
  next
    case True
    let ?f = "\<lambda>k. matches r (setg n (take (Suc k) (rest st)) (adv (Suc k) st))"
    have z: "?f k = []" if "k < run P cs" for k
    proof -
      from that have "Suc k < run P (rest st)" using Cons True by (simp add: run_Cons)
      from rejects_adv [OF assms this] show ?thesis by simp
    qed
    have c: "consumed st (adv (Suc k) st) = take (Suc k) (rest st)" if "k \<le> run P cs" for k
    proof -
      from that run_le [of P cs] have "Suc k \<le> length (rest st)" using Cons by simp
      then show ?thesis by (rule consumed_adv)
    qed
    have "matches (Seq (Grp n (Plus True (Cls P))) r) st =
          concat (map (\<lambda>k. matches r (setg n (consumed st (adv (Suc k) st)) (adv (Suc k) st)))
                      (rev [0..<Suc (run P cs)]))"
      using Cons True
      by (simp add: Plus_def matches_Cls matches_Grp_setg matches_Star_Cls_greedy comp_def
               setg_def del: upt_Suc)
    also have "\<dots> = concat (map ?f (rev [0..<Suc (run P cs)]))"
      by (rule arg_cong [where f = concat], rule map_cong) (auto simp: c simp del: upt_Suc)
    also have "\<dots> = ?f (run P cs)"
      using z by (rule concat_map_rev_upt_last)
    finally show ?thesis using Cons True by (simp add: run_Cons take_run [symmetric])
  qed
qed

lemma matches_Chr:
  "matches (Chr c) st = (if rest st \<noteq> [] \<and> hd (rest st) = c then [adv 1 st] else [])"
  by (simp add: Chr_def matches_Cls)

lemma matches_Lit:
  "matches (Lit w) st = (if take (length w) (rest st) = w then [adv (length w) st] else [])"
proof (induction w arbitrary: st)
  case Nil
  then show ?case by (simp add: Lit_def)
next
  case (Cons c w)
  have L: "Lit (c # w) = Seq (Chr c) (Lit w)" by (simp add: Lit_def)
  show ?case
  proof (cases "rest st")
    case Nil
    then show ?thesis by (simp add: L matches_Chr)
  next
    case (Cons d ds)
    then show ?thesis by (auto simp: L matches_Chr Cons.IH)
  qed
qed

lemma start_simps [simp]: "pos (start l) = 0" "rest (start l) = l" "grps (start l) = Map.empty"
  by (simp_all add: start_def)

lemma re_match_start: "re_match r l = (case matches r (start l) of [] \<Rightarrow> None | m # _ \<Rightarrow> Some m)"
  by (simp add: re_match_def start_def)

lemma re_match_None: "re_match r l = None \<longleftrightarrow> matches r (start l) = []"
  by (simp add: re_match_start split: list.splits)

lemma re_match_Some: "matches r (start l) = m # ms \<Longrightarrow> re_match r l = Some m"
  by (simp add: re_match_start)

lemma lstrip_drop: "lstrip l = drop (run is_space l) l"
  by (simp add: lstrip_def drop_run)

lemma needs_hd_lstrip:
  assumes "needs Q r" and "\<And>c. Q c \<Longrightarrow> \<not> is_space c" and "matches r s \<noteq> []" and "rest s = l"
  shows "l \<noteq> [] \<and> Q (hd l) \<and> lstrip l = l"
proof -
  from needsD [OF assms(1,3)] assms(4) have a: "l \<noteq> []" "Q (hd l)" by auto
  with assms(2) have "\<not> is_space (hd l)" by blast
  with a show ?thesis by (cases l) (auto simp: lstrip_def)
qed

lemma heading_shape:
  assumes "re_match RE_HEADING l \<noteq> None"
  shows "take 1 (lstrip l) = ''#''"
proof -
  let ?r = "seqs [Grp 1 (Seq (Chr (CHR ''#'')) (upto_times 5 (Chr (CHR ''#'')))),
                  Star True (Cls is_space), Grp 2 (Star True Dot), Eol]"
  have n: "needs (\<lambda>x. x = CHR ''#'') ?r"
    by (intro needs_seqs needs_Grp needs_Seq needs_Chr)
  from assms have "matches ?r (start l) \<noteq> []"
    by (simp add: re_match_None RE_HEADING_def seqs_Cons [of Bol])
  from needs_hd_lstrip [OF n _ this] have "l \<noteq> [] \<and> hd l = CHR ''#'' \<and> lstrip l = l"
    by (simp add: is_space_def)
  then show ?thesis by (cases l) auto
qed

lemma fence_start_shape:
  assumes "re_match RE_FENCE_START l \<noteq> None"
  shows "take 1 (lstrip l) = ''`''"
proof -
  let ?r = "seqs [Lit ''```'', Opt (Grp 1 (Plus True (Cls is_word))),
                  Star True (Cls is_space), Eol]"
  have n: "needs (\<lambda>x. x = CHR ''`'') ?r"
    by (intro needs_seqs needs_Lit)
  from assms have "matches ?r (start l) \<noteq> []"
    by (simp add: re_match_None RE_FENCE_START_def seqs_Cons [of Bol])
  from needs_hd_lstrip [OF n _ this] have "l \<noteq> [] \<and> hd l = CHR ''`'' \<and> lstrip l = l"
    by (simp add: is_space_def)
  then show ?thesis by (cases l) auto
qed

lemma blockquote_shape:
  assumes "re_match RE_BLOCKQUOTE l \<noteq> None"
  shows "take 1 (lstrip l) = ''>''"
proof -
  let ?r = "seqs [Plus True (Chr (CHR ''>'')), Opt (Cls is_space), Grp 1 (Star True Dot), Eol]"
  have n: "needs (\<lambda>x. x = CHR ''>'') ?r"
    by (intro needs_seqs needs_Plus needs_Chr)
  have r: "rejects is_space ?r"
    by (rule needs_rejects [OF n]) (simp add: is_space_def)
  from assms have "matches (Seq (Star True (Cls is_space)) ?r) (start l) \<noteq> []"
    by (simp add: re_match_None RE_BLOCKQUOTE_def seqs_Cons [of Bol] seqs_Cons [of "Star True (Cls is_space)"])
  then have "matches ?r (adv (run is_space l) (start l)) \<noteq> []"
    unfolding star_rejects [OF r] by simp
  from needsD [OF n this] have "lstrip l \<noteq> [] \<and> hd (lstrip l) = CHR ''>''"
    by (simp add: lstrip_drop)
  then show ?thesis by (cases "lstrip l") auto
qed

lemma matches_Bol_Seq: "matches (Seq Bol r) (start l) = matches r (start l)"
  by simp

lemma run_all: "\<forall>c \<in> set s. P c \<Longrightarrow> run P s = length s"
  by (induction s) (auto simp: run_def)

lemma unordered_shape:
  assumes "re_match RE_UNORDERED l \<noteq> None"
  shows "\<exists>c s. take 2 (lstrip l) = [c, s] \<and> c \<in> set ''-*+'' \<and> is_space s"
proof -
  let ?M = "\<lambda>c. c \<in> set ''-*+''"
  let ?t = "seqs [Plus True (Cls is_space), Grp 3 (Star True Dot), Eol]"
  let ?r = "Seq (Grp 2 (Cls ?M)) ?t"
  have d: "RE_UNORDERED = Seq Bol (Seq (Grp 1 (Star True (Cls is_space))) ?r)"
    by (simp add: RE_UNORDERED_def seqs_def)
  have n: "needs ?M ?r"
    by (intro needs_Seq needs_Grp needs_Cls)
  have r: "rejects is_space ?r"
    by (rule needs_rejects [OF n]) (auto simp: is_space_def)
  have nt: "needs is_space ?t"
    by (intro needs_seqs needs_Plus needs_Cls)
  let ?s = "setg 1 (takeWhile is_space l) (adv (run is_space l) (start l))"
  from assms have m: "matches ?r ?s \<noteq> []"
    by (simp only: re_match_None d matches_Bol_Seq grp_star_rejects [OF r] start_simps simp_thms)
  from needsD [OF n m] have a: "lstrip l \<noteq> []" "hd (lstrip l) \<in> set ''-*+''"
    by (simp_all add: lstrip_drop)
  from m have "matches ?t (setg 2 (consumed ?s (adv 1 ?s)) (adv 1 ?s)) \<noteq> []"
    by (simp add: setg_def split: if_splits del: One_nat_def set_simps)
  from needsD [OF nt this] have "drop 1 (lstrip l) \<noteq> [] \<and> is_space (hd (drop 1 (lstrip l)))"
    by (simp add: lstrip_drop)
  with a show ?thesis
    by (cases "lstrip l"; cases "tl (lstrip l)") (auto simp: drop_Suc)
qed


lemma matches_Seq_Eps [simp]: "concat (map (matches Eps) xs) = xs"
  by (induction xs) auto

lemma concat_map_ne: "concat (map f xs) \<noteq> [] \<longleftrightarrow> (\<exists>x \<in> set xs. f x \<noteq> [])"
  by (induction xs) auto

lemma take_le_run: "k \<le> run P s \<Longrightarrow> c \<in> set (take k s) \<Longrightarrow> P c"
proof -
  assume k: "k \<le> run P s" and c: "c \<in> set (take k s)"
  have "take k s = take k (takeWhile P s)"
    using k by (metis run_def take_run take_take min.absorb1)
  with c have "c \<in> set (takeWhile P s)" by (metis in_set_takeD)
  then show "P c" by (rule set_takeWhileD [THEN conjunct2])
qed

lemma space_eol:
  "matches (Seq (Star True (Cls is_space)) (Seq Eol Eps)) st \<noteq> [] \<longleftrightarrow>
   (\<forall>c \<in> set (rest st). is_space c)"
proof -
  let ?n = "run is_space (rest st)"
  let ?E = "\<lambda>k. drop k (rest st) = [] \<or> drop k (rest st) = [CHR 0x0A]"
  let ?f = "\<lambda>k. if ?E k then [adv k st] else []"
  have e: "matches (Seq (Star True (Cls is_space)) (Seq Eol Eps)) st =
           concat (map ?f (rev [0..<Suc ?n]))"
    by (simp add: matches_Star_Cls_greedy comp_def del: upt_Suc drop_eq_Nil)
  have f: "?f k \<noteq> [] \<longleftrightarrow> ?E k" for k
    by (simp del: drop_eq_Nil)
  have "matches (Seq (Star True (Cls is_space)) (Seq Eol Eps)) st \<noteq> [] \<longleftrightarrow>
        (\<exists>k \<in> set (rev [0..<Suc ?n]). ?f k \<noteq> [])"
    unfolding e by (rule concat_map_ne)
  also have "\<dots> \<longleftrightarrow> (\<exists>k \<in> set (rev [0..<Suc ?n]). ?E k)"
    by (simp only: f)
  also have "\<dots> \<longleftrightarrow> (\<exists>k. k \<le> ?n \<and> ?E k)"
    by (simp only: set_rev set_upt Bex_def atLeastLessThan_iff le0 simp_thms less_Suc_eq_le)
  also have "\<dots> \<longleftrightarrow> (\<forall>c \<in> set (rest st). is_space c)"
  proof
    assume "\<exists>k. k \<le> ?n \<and> ?E k"
    then obtain k where k: "k \<le> ?n" and d: "?E k"
      by blast
    have t: "is_space c" if "c \<in> set (take k (rest st))" for c
      using take_le_run [OF k that] .
    have n: "is_space (CHR 0x0A)" by (simp add: is_space_def)
    from d n have u: "is_space c" if "c \<in> set (drop k (rest st))" for c
      using that by (elim disjE) simp_all
    show "\<forall>c \<in> set (rest st). is_space c"
    proof
      fix c assume "c \<in> set (rest st)"
      then have "c \<in> set (take k (rest st) @ drop k (rest st))" by (simp only: append_take_drop_id)
      then have "c \<in> set (take k (rest st)) \<or> c \<in> set (drop k (rest st))"
        by (simp only: set_append Un_iff)
      with t u show "is_space c" by blast
    qed
  next
    assume "\<forall>c \<in> set (rest st). is_space c"
    then have "?n = length (rest st)" by (rule run_all)
    then have "?n \<le> ?n \<and> ?E ?n" by simp
    then show "\<exists>k. k \<le> ?n \<and> ?E k" by (rule exI)
  qed
  finally show ?thesis .
qed

lemma needs_Lit': "Q c \<Longrightarrow> needs Q (Lit (c # w))"
  by (rule needs_mono [OF needs_Lit]) simp

lemma matches_Seq_Grp_Alt:
  "matches (Seq (Grp n (Alt a b)) T) s = matches (Seq (Grp n a) T) s @ matches (Seq (Grp n b) T) s"
  by simp

lemma matches_Seq_Grp_Lit:
  "matches (Seq (Grp n (Lit w)) T) s =
     (if take (length w) (rest s) = w then matches T (setg n w (adv (length w) s)) else [])"
proof (cases "take (length w) (rest s) = w")
  case True
  then have "length (take (length w) (rest s)) = length w" by simp
  then have "length w \<le> length (rest s)" by simp
  with True show ?thesis
    by (simp add: matches_Lit setg_def consumed_adv)
next
  case False
  then show ?thesis by (simp add: matches_Lit)
qed

lemma rstrip_iff:
  assumes "w \<noteq> []" and "\<not> is_space (last w)"
  shows "rstrip x = w \<longleftrightarrow> (\<exists>t. x = w @ t \<and> (\<forall>c \<in> set t. is_space c))"
proof
  assume r: "rstrip x = w"
  have "rev (dropWhile is_space (rev x)) @ rev (takeWhile is_space (rev x)) =
        rev (takeWhile is_space (rev x) @ dropWhile is_space (rev x))"
    by (simp only: rev_append)
  also have "\<dots> = x" by simp
  finally have "x = rstrip x @ rev (takeWhile is_space (rev x))"
    by (simp add: rstrip_def)
  moreover have "\<forall>c \<in> set (rev (takeWhile is_space (rev x))). is_space c"
    by (auto dest: set_takeWhileD)
  ultimately show "\<exists>t. x = w @ t \<and> (\<forall>c \<in> set t. is_space c)"
    using r by metis
next
  assume "\<exists>t. x = w @ t \<and> (\<forall>c \<in> set t. is_space c)"
  then obtain t where x: "x = w @ t" and t: "\<forall>c \<in> set t. is_space c" by blast
  have "dropWhile is_space (rev t @ rev w) = dropWhile is_space (rev w)"
    by (rule dropWhile_append2) (use t in auto)
  moreover have "dropWhile is_space (rev w) = rev w"
    using assms by (cases "rev w") (auto simp: last_rev [symmetric] simp del: last_rev)
  ultimately show "rstrip x = w" by (simp add: rstrip_def x)
qed

lemma prefix_split:
  "(\<exists>t. x = w @ t \<and> (\<forall>c \<in> set t. is_space c)) \<longleftrightarrow>
   (take (length w) x = w \<and> (\<forall>c \<in> set (drop (length w) x). is_space c))"
proof
  assume "\<exists>t. x = w @ t \<and> (\<forall>c \<in> set t. is_space c)"
  then show "take (length w) x = w \<and> (\<forall>c \<in> set (drop (length w) x). is_space c)" by auto
next
  assume a: "take (length w) x = w \<and> (\<forall>c \<in> set (drop (length w) x). is_space c)"
  have "x = take (length w) x @ drop (length w) x" by simp
  with a have "x = w @ drop (length w) x" by simp
  with a show "\<exists>t. x = w @ t \<and> (\<forall>c \<in> set t. is_space c)" by blast
qed

lemma strip_eq_lit:
  assumes "w \<noteq> []" and "\<not> is_space (last w)"
  shows "strip l = w \<longleftrightarrow>
         (take (length w) (lstrip l) = w \<and> (\<forall>c \<in> set (drop (length w) (lstrip l)). is_space c))"
  unfolding strip_def rstrip_iff [OF assms] prefix_split ..

lemma hr_matches:
  "re_match RE_HR l \<noteq> None \<longleftrightarrow>
   (\<exists>w \<in> {''***'', ''---'', ''___''}.
      take 3 (lstrip l) = w \<and> (\<forall>c \<in> set (drop 3 (lstrip l)). is_space c))"
proof -
  let ?T = "Seq (Star True (Cls is_space)) (Seq Eol Eps)"
  let ?A = "Alt (Lit ''***'') (Alt (Lit ''---'') (Lit ''___''))"
  let ?r = "Seq (Grp 1 ?A) ?T"
  let ?Q = "\<lambda>c. c = CHR ''*'' \<or> c = CHR ''-'' \<or> c = CHR ''_''"
  have d: "RE_HR = Seq Bol (Seq (Star True (Cls is_space)) ?r)"
    by (simp add: RE_HR_def seqs_def)
  have n: "needs ?Q ?r"
    by (intro needs_Seq needs_Grp needs_Alt needs_Lit') simp_all
  have r: "rejects is_space ?r"
    by (rule needs_rejects [OF n]) (auto simp: is_space_def)
  let ?s = "adv (run is_space l) (start l)"
  have T: "matches ?T (setg 1 w (adv 3 ?s)) \<noteq> [] \<longleftrightarrow> (\<forall>c \<in> set (drop 3 (lstrip l)). is_space c)"
    for w
    by (simp only: space_eol rest_setg rest_adv start_simps lstrip_drop drop_drop add.commute)
  have "re_match RE_HR l \<noteq> None \<longleftrightarrow> matches ?r ?s \<noteq> []"
    by (simp only: re_match_None d matches_Bol_Seq star_rejects [OF r] start_simps)
  also have "matches ?r ?s =
      (if take 3 (lstrip l) = ''***'' then matches ?T (setg 1 ''***'' (adv 3 ?s)) else []) @
      (if take 3 (lstrip l) = ''---'' then matches ?T (setg 1 ''---'' (adv 3 ?s)) else []) @
      (if take 3 (lstrip l) = ''___'' then matches ?T (setg 1 ''___'' (adv 3 ?s)) else [])"
    by (simp only: matches_Seq_Grp_Alt matches_Seq_Grp_Lit rest_adv start_simps lstrip_drop,
        simp only: list.size) (simp add: numeral_3_eq_3)
  finally show ?thesis
    using T by (auto split: if_splits simp: numeral_3_eq_3)
qed

lemma hr_iff: "re_match RE_HR l \<noteq> None \<longleftrightarrow> strip l \<in> {''***'', ''---'', ''___''}"
proof -
  have a: "strip l = ''***'' \<longleftrightarrow>
      (take 3 (lstrip l) = ''***'' \<and> (\<forall>c \<in> set (drop 3 (lstrip l)). is_space c))"
    using strip_eq_lit [of "''***''" l] by (simp add: is_space_def numeral_3_eq_3)
  have b: "strip l = ''---'' \<longleftrightarrow>
      (take 3 (lstrip l) = ''---'' \<and> (\<forall>c \<in> set (drop 3 (lstrip l)). is_space c))"
    using strip_eq_lit [of "''---''" l] by (simp add: is_space_def numeral_3_eq_3)
  have c: "strip l = ''___'' \<longleftrightarrow>
      (take 3 (lstrip l) = ''___'' \<and> (\<forall>c \<in> set (drop 3 (lstrip l)). is_space c))"
    using strip_eq_lit [of "''___''" l] by (simp add: is_space_def numeral_3_eq_3)
  show ?thesis
    unfolding hr_matches using a b c by auto
qed

lemma hr_shape:
  assumes "re_match RE_HR l \<noteq> None"
  shows "\<exists>c \<in> set ''*-_''. take 2 (lstrip l) = [c, c]"
proof -
  from assms obtain w where w: "w \<in> {''***'', ''---'', ''___''}" and t: "take 3 (lstrip l) = w"
    unfolding hr_matches by blast
  have "take 2 (lstrip l) = take 2 (take 3 (lstrip l))" by simp
  with t have "take 2 (lstrip l) = take 2 w" by simp
  with w show ?thesis by auto
qed

lemma matches_Seq_Lit:
  "matches (Seq (Lit w) T) s =
     (if take (length w) (rest s) = w then matches T (adv (length w) s) else [])"
  by (simp add: matches_Lit)

lemma fence_end_iff:
  "re_match RE_FENCE_END t \<noteq> None \<longleftrightarrow>
   take 3 t = ''```'' \<and> (\<forall>c \<in> set (drop 3 t). is_space c)"
proof -
  let ?T = "Seq (Star True (Cls is_space)) (Seq Eol Eps)"
  have d: "RE_FENCE_END = Seq Bol (Seq (Lit ''```'') ?T)"
    by (simp add: RE_FENCE_END_def seqs_def)
  have "re_match RE_FENCE_END t \<noteq> None \<longleftrightarrow>
        (if take (length ''```'') t = ''```'' then matches ?T (adv (length ''```'') (start t)) else [])
          \<noteq> []"
    by (simp only: re_match_None d matches_Bol_Seq matches_Seq_Lit start_simps)
  also have "\<dots> \<longleftrightarrow> take 3 t = ''```'' \<and> (\<forall>c \<in> set (drop 3 t). is_space c)"
    using space_eol [of "adv 3 (start t)"] by (simp add: numeral_3_eq_3)
  finally show ?thesis .
qed

text \<open>No line matches two of the patterns that start a block.\<close>

lemma heading_not_hr: "re_match RE_HEADING l \<noteq> None \<Longrightarrow> re_match RE_HR l = None"
proof (rule ccontr)
  assume a: "re_match RE_HEADING l \<noteq> None" and b: "re_match RE_HR l \<noteq> None"
  from heading_shape [OF a] hr_shape [OF b] show False
    by (cases "lstrip l") (auto)
qed

lemma fence_start_not_hr: "re_match RE_FENCE_START l \<noteq> None \<Longrightarrow> re_match RE_HR l = None"
proof (rule ccontr)
  assume a: "re_match RE_FENCE_START l \<noteq> None" and b: "re_match RE_HR l \<noteq> None"
  from fence_start_shape [OF a] hr_shape [OF b] show False
    by (cases "lstrip l") (auto)
qed

lemma fence_start_not_heading: "re_match RE_FENCE_START l \<noteq> None \<Longrightarrow> re_match RE_HEADING l = None"
proof (rule ccontr)
  assume a: "re_match RE_FENCE_START l \<noteq> None" and b: "re_match RE_HEADING l \<noteq> None"
  from fence_start_shape [OF a] heading_shape [OF b] show False
    by (cases "lstrip l") (auto)
qed

lemma blockquote_not_hr: "re_match RE_BLOCKQUOTE l \<noteq> None \<Longrightarrow> re_match RE_HR l = None"
proof (rule ccontr)
  assume a: "re_match RE_BLOCKQUOTE l \<noteq> None" and b: "re_match RE_HR l \<noteq> None"
  from blockquote_shape [OF a] hr_shape [OF b] show False
    by (cases "lstrip l") (auto)
qed

lemma blockquote_not_heading: "re_match RE_BLOCKQUOTE l \<noteq> None \<Longrightarrow> re_match RE_HEADING l = None"
proof (rule ccontr)
  assume a: "re_match RE_BLOCKQUOTE l \<noteq> None" and b: "re_match RE_HEADING l \<noteq> None"
  from blockquote_shape [OF a] heading_shape [OF b] show False
    by (cases "lstrip l") (auto)
qed

lemma blockquote_not_fence_start: "re_match RE_BLOCKQUOTE l \<noteq> None \<Longrightarrow> re_match RE_FENCE_START l = None"
proof (rule ccontr)
  assume a: "re_match RE_BLOCKQUOTE l \<noteq> None" and b: "re_match RE_FENCE_START l \<noteq> None"
  from blockquote_shape [OF a] fence_start_shape [OF b] show False
    by (cases "lstrip l") (auto)
qed

lemma unordered_not_hr: "re_match RE_UNORDERED l \<noteq> None \<Longrightarrow> re_match RE_HR l = None"
proof (rule ccontr)
  assume a: "re_match RE_UNORDERED l \<noteq> None" and b: "re_match RE_HR l \<noteq> None"
  from unordered_shape [OF a] hr_shape [OF b] show False
    by (cases "lstrip l"; cases "tl (lstrip l)") (auto simp: is_space_def)
qed

lemma unordered_not_heading: "re_match RE_UNORDERED l \<noteq> None \<Longrightarrow> re_match RE_HEADING l = None"
proof (rule ccontr)
  assume a: "re_match RE_UNORDERED l \<noteq> None" and b: "re_match RE_HEADING l \<noteq> None"
  from unordered_shape [OF a] heading_shape [OF b] show False
    by (cases "lstrip l"; cases "tl (lstrip l)") (auto)
qed

lemma unordered_not_fence_start: "re_match RE_UNORDERED l \<noteq> None \<Longrightarrow> re_match RE_FENCE_START l = None"
proof (rule ccontr)
  assume a: "re_match RE_UNORDERED l \<noteq> None" and b: "re_match RE_FENCE_START l \<noteq> None"
  from unordered_shape [OF a] fence_start_shape [OF b] show False
    by (cases "lstrip l"; cases "tl (lstrip l)") (auto)
qed

lemma unordered_not_blockquote: "re_match RE_UNORDERED l \<noteq> None \<Longrightarrow> re_match RE_BLOCKQUOTE l = None"
proof (rule ccontr)
  assume a: "re_match RE_UNORDERED l \<noteq> None" and b: "re_match RE_BLOCKQUOTE l \<noteq> None"
  from unordered_shape [OF a] blockquote_shape [OF b] show False
    by (cases "lstrip l"; cases "tl (lstrip l)") (auto)
qed






lemma render_Cons: "render (b # bs) = render_block b @ render bs"
  by (simp add: render_def)

lemma render_append: "render (as @ bs) = render as @ render bs"
  by (simp add: render_def)

lemma process_inline_Cons: "process_inline (b # bs) = process_block b # process_inline bs"
  by (simp add: process_inline_def)

lemma process_inline_append: "process_inline (as @ bs) = process_inline as @ process_inline bs"
  by (simp add: process_inline_def)

lemma prepend_Inr [simp]: "prepend xs (Inr ys) = Inr (xs @ ys)"
  by (simp add: prepend_def)

lemma prepend_Inl [simp]: "prepend xs (Inl e) = Inl e"
  by (simp add: prepend_def)

lemma prepend_Nil [simp]: "prepend [] r = r"
  by (cases r) simp_all

lemma prepend_prepend [simp]: "prepend xs (prepend ys r) = prepend (xs @ ys) r"
  by (cases r) simp_all

lemma prepend_eq_Inr: "prepend xs r = Inr zs \<longleftrightarrow> (\<exists>ys. r = Inr ys \<and> zs = xs @ ys)"
  by (cases r) auto

lemma rendered_Inr [simp]: "rendered (Inr bs) = Inr (render (process_inline bs))"
  by (simp add: rendered_def)

lemma rendered_Inl [simp]: "rendered (Inl e) = Inl e"
  by (simp add: rendered_def)

lemma rendered_prepend:
  "rendered (prepend bs r) = prepend (render (process_inline bs)) (rendered r)"
  by (cases r) (simp_all add: render_append process_inline_append)

lemma convert_rendered:
  "convert s = (if s = [] \<or> strip s = [] then Inr [] else rendered (parse (tokenize s)))"
  by (simp add: convert_def rendered_def)

lemma parse_hr:
  "re_match RE_HR l \<noteq> None \<Longrightarrow> parse (l # ts) = prepend [hr_block] (parse ts)"
  by (simp add: parse.simps(2))

lemma parse_heading:
  assumes "re_match RE_HEADING l = Some m"
  shows "parse (l # ts) =
         prepend [heading_block (int (length (group m 1))) (strip (group m 2))] (parse ts)"
proof -
  from assms have "re_match RE_HR l = None" by (intro heading_not_hr) simp
  with assms show ?thesis by (simp add: parse.simps(2))
qed

lemma parse_blockquote:
  assumes "re_match RE_BLOCKQUOTE l \<noteq> None"
  shows "parse (l # ts) = prepend [blockquote_of l] (parse ts)"
proof -
  have u: "parse (x # xs) =
           (case blockquote_loop x xs of (bs, left) \<Rightarrow> prepend bs (parse left))"
    if "re_match RE_BLOCKQUOTE x \<noteq> None" for x xs
    using that blockquote_not_hr [OF that] blockquote_not_heading [OF that]
      blockquote_not_fence_start [OF that]
    by (simp add: parse.simps(2))
  show ?thesis
  proof (cases ts)
    case Nil
    then show ?thesis by (simp add: u [OF assms])
  next
    case (Cons t ts')
    show ?thesis
    proof (cases "re_match RE_BLOCKQUOTE t = None")
      case True
      with Cons show ?thesis by (simp add: u [OF assms])
    next
      case False
      with Cons show ?thesis
        by (simp add: u [OF assms] u [OF False] split: prod.splits)
    qed
  qed
qed

lemma parse_unordered:
  assumes "re_match RE_UNORDERED l = Some m"
  shows "parse (l # ts) =
         prepend [ul_block (int (length (group m 1))) (strip (group m 3))] (parse ts)"
proof -
  from assms have n: "re_match RE_UNORDERED l \<noteq> None" by simp
  from assms unordered_not_hr [OF n] unordered_not_heading [OF n] unordered_not_fence_start [OF n]
    unordered_not_blockquote [OF n]
  show ?thesis by (simp add: parse.simps(2))
qed


lemma fence_loop_eq:
  "fence_loop acc ts =
     (acc @ takeWhile (\<lambda>t. re_match RE_FENCE_END t = None) ts,
      dropWhile (\<lambda>t. re_match RE_FENCE_END t = None) ts)"
  by (induction ts arbitrary: acc) auto

lemma parse_fence:
  assumes "re_match RE_FENCE_START l = Some m"
  shows "parse (l # ts) =
         prepend [code_block (group m 1)
                    (join [CHR 0x0A] (takeWhile (\<lambda>t. re_match RE_FENCE_END t = None) ts))]
           (parse (drop 1 (dropWhile (\<lambda>t. re_match RE_FENCE_END t = None) ts)))"
proof -
  from assms have n: "re_match RE_FENCE_START l \<noteq> None" by simp
  from assms fence_start_not_hr [OF n] fence_start_not_heading [OF n]
  show ?thesis by (simp add: parse.simps(2) fence_loop_eq)
qed

lemma heads_Cons [simp]: "heads (y # ys) x \<longleftrightarrow> y = x"
  by (auto simp: heads_def)

lemma heads_Nil [simp]: "\<not> heads [] x"
  by (simp add: heads_def)

lemma heads_append: "heads xs x \<Longrightarrow> heads (xs @ ys) x"
  by (auto simp: heads_def)

lemma heads_map: "heads xs x \<Longrightarrow> heads (map g xs) (g x)"
  by (auto simp: heads_def)

lemma heads_concat_map: "heads xs x \<Longrightarrow> heads (f x) y \<Longrightarrow> heads (concat (map f xs)) y"
  by (auto simp: heads_def)

lemma heads_re_match: "heads (matches r (start l)) m \<Longrightarrow> re_match r l = Some m"
  by (auto simp: heads_def re_match_start)

lemma heads_Seq: "heads (matches a st) x \<Longrightarrow> heads (matches b x) y \<Longrightarrow> heads (matches (Seq a b) st) y"
  by (simp add: heads_concat_map)

lemma heads_Grp:
  "heads (matches r st) x \<Longrightarrow> heads (matches (Grp n r) st) (setg n (consumed st x) x)"
  unfolding matches_Grp_setg by (rule heads_map)

lemma heads_Star: "heads (matches (Star True (Cls P)) st) (adv (run P (rest st)) st)"
  by (simp add: matches_Star_Cls_greedy)

lemma heads_Cls: "rest st \<noteq> [] \<Longrightarrow> P (hd (rest st)) \<Longrightarrow> heads (matches (Cls P) st) (adv 1 st)"
  by simp

lemma heads_Chr: "rest st \<noteq> [] \<Longrightarrow> hd (rest st) = c \<Longrightarrow> heads (matches (Chr c) st) (adv 1 st)"
  by (simp add: matches_Chr)


lemma heads_Eol: "rest st = [] \<Longrightarrow> heads (matches Eol st) st"
  by simp

lemma heads_Eps: "heads (matches Eps st) st"
  by simp

lemma heads_Bol: "pos st = 0 \<Longrightarrow> heads (matches Bol st) st"
  by simp

lemma heads_upto_times:
  "heads (matches (upto_times m (Cls P)) st) (adv (min m (run P (rest st))) st)"
proof (induction m arbitrary: st)
  case 0
  then show ?case by simp
next
  case (Suc m)
  show ?case
  proof (cases "rest st \<noteq> [] \<and> P (hd (rest st))")
    case True
    then obtain c cs where r: "rest st = c # cs" and c: "P c" by (cases "rest st") auto
    have a: "adv (min m (run P (rest (adv 1 st)))) (adv 1 st) = adv (Suc (min m (run P cs))) st"
      using r by simp
    from Suc [of "adv 1 st"]
    have "heads (matches (upto_times m (Cls P)) (adv 1 st)) (adv (Suc (min m (run P cs))) st)"
      by (simp only: a)
    with r c show ?thesis
      by (simp add: Opt_def run_Cons heads_append del: One_nat_def)
  next
    case False
    then have "run P (rest st) = 0" by (cases "rest st") (auto simp: run_Cons run_def)
    with False show ?thesis by (auto simp: Opt_def)
  qed
qed

lemma run_append:
  "\<forall>c \<in> set xs. P c \<Longrightarrow> ys = [] \<or> \<not> P (hd ys) \<Longrightarrow> run P (xs @ ys) = length xs"
  by (induction xs) (auto simp: run_Cons run_def neq_Nil_conv takeWhile_eq_Nil_iff)

lemma tail_heads:
  assumes "CHR 0x0A \<notin> set (rest st)"
  shows "heads (matches (Seq (Grp g (Star True Dot)) (Seq Eol Eps)) st)
           (setg g (rest st) (adv (length (rest st)) st))"
proof -
  from assms have n: "run (\<lambda>c. c \<noteq> CHR 0x0A) (rest st) = length (rest st)"
    by (intro run_all) auto
  have s: "heads (matches (Star True Dot) st) (adv (length (rest st)) st)"
    using heads_Star [of "\<lambda>c. c \<noteq> CHR 0x0A" st] by (simp add: Dot_def n)
  have c: "consumed st (adv (length (rest st)) st) = rest st"
    by (simp add: consumed_adv)
  from heads_Grp [OF s, of g] c
  have g: "heads (matches (Grp g (Star True Dot)) st) (setg g (rest st) (adv (length (rest st)) st))"
    by simp
  show ?thesis
    by (rule heads_Seq [OF g]) simp
qed

lemma strip_lstrip: "strip (dropWhile is_space s) = strip s"
  by (simp add: strip_def lstrip_def)

lemma heading_groups:
  assumes "1 \<le> N" and "N \<le> 6" and "CHR 0x0A \<notin> set text"
  shows "\<exists>m. re_match RE_HEADING (replicate N (CHR ''#'') @ '' '' @ text) = Some m \<and>
             group m 1 = replicate N (CHR ''#'') \<and> group m 2 = dropWhile is_space text"
proof -
  let ?h = "replicate N (CHR ''#'')"
  let ?l = "?h @ '' '' @ text"
  let ?H = "\<lambda>c. c = CHR ''#''"
  let ?s0 = "start ?l"
  from assms(1) obtain k where N: "N = Suc k" by (cases N) auto
  have d: "RE_HEADING =
      Seq Bol (Seq (Grp 1 (Seq (Chr (CHR ''#'')) (upto_times 5 (Chr (CHR ''#'')))))
        (Seq (Star True (Cls is_space)) (Seq (Grp 2 (Star True Dot)) (Seq Eol Eps))))"
    by (simp add: RE_HEADING_def seqs_def)
  \<comment> \<open>the run of hashes\<close>
  have rk: "run ?H (replicate k (CHR ''#'') @ '' '' @ text) = k"
    using run_append [of "replicate k (CHR ''#'')" ?H "'' '' @ text"] by simp
  let ?s1 = "adv 1 ?s0"
  have h1: "heads (matches (Chr (CHR ''#'')) ?s0) ?s1"
    by (rule heads_Chr) (simp_all add: N)
  have "heads (matches (upto_times 5 (Cls ?H)) ?s1) (adv (min 5 (run ?H (rest ?s1))) ?s1)"
    by (rule heads_upto_times)
  moreover have "min 5 (run ?H (rest ?s1)) = k"
    using rk assms(2) by (simp add: N)
  ultimately have h2: "heads (matches (upto_times 5 (Chr (CHR ''#''))) ?s1) (adv N ?s0)"
    by (simp add: Chr_def N)
  have c1: "consumed ?s0 (adv N ?s0) = ?h"
    by (simp add: consumed_adv)
  let ?s2 = "setg 1 ?h (adv N ?s0)"
  from heads_Grp [OF heads_Seq [OF h1 h2], of 1] c1
  have g1: "heads (matches (Grp 1 (Seq (Chr (CHR ''#'')) (upto_times 5 (Chr (CHR ''#''))))) ?s0) ?s2"
    by simp
  \<comment> \<open>the blanks after them\<close>
  have r2: "rest ?s2 = '' '' @ text" by simp
  let ?n = "run is_space ('' '' @ text)"
  let ?s3 = "adv ?n ?s2"
  have g2: "heads (matches (Star True (Cls is_space)) ?s2) ?s3"
    using heads_Star [of is_space ?s2] by (simp only: r2)
  have r3: "rest ?s3 = dropWhile is_space text"
    by (simp add: drop_run is_space_def)
  \<comment> \<open>the text\<close>
  have nl: "CHR 0x0A \<notin> set (rest ?s3)"
    using assms(3) unfolding r3 by (auto dest: set_dropWhileD)
  let ?s4 = "setg 2 (rest ?s3) (adv (length (rest ?s3)) ?s3)"
  have g3: "heads (matches (Seq (Grp 2 (Star True Dot)) (Seq Eol Eps)) ?s3) ?s4"
    by (rule tail_heads [OF nl])
  have "heads (matches RE_HEADING ?s0) ?s4"
    unfolding d by (intro heads_Seq [OF heads_Bol] heads_Seq [OF g1] heads_Seq [OF g2] g3) simp
  then have "re_match RE_HEADING ?l = Some ?s4" by (rule heads_re_match)
  moreover have "group ?s4 1 = ?h" by (simp add: group_def)
  moreover have "group ?s4 2 = dropWhile is_space text"
  proof -
    have "group ?s4 2 = rest ?s3" by (simp only: group_def grps_setg fun_upd_same option.case)
    then show ?thesis by (simp only: r3)
  qed
  ultimately show ?thesis by blast
qed

lemma splitlines_aux_one:
  "\<forall>c \<in> set s. \<not> is_linebreak c \<Longrightarrow> rev cur @ s \<noteq> [] \<Longrightarrow> splitlines_aux cur s = [rev cur @ s]"
proof (induction s arbitrary: cur)
  case Nil
  then show ?case by simp
next
  case (Cons c s)
  from Cons.prems(1) have c: "\<not> is_linebreak c" and s: "\<forall>c \<in> set s. \<not> is_linebreak c" by auto
  from c have "c \<noteq> CHR 0x0D" by (auto simp: is_linebreak_def)
  with c Cons.IH [OF s, of "c # cur"] show ?case by simp
qed

lemma tokenize_one:
  "\<forall>c \<in> set s. \<not> is_linebreak c \<Longrightarrow> s \<noteq> [] \<Longrightarrow> tokenize s = [s]"
  using splitlines_aux_one [of s "[]"] by (simp add: tokenize_def splitlines_def)

lemma strip_not_Nil:
  assumes "c \<in> set l" and "\<not> is_space c"
  shows "strip l \<noteq> []"
proof -
  from assms have n: "lstrip l \<noteq> []" by (auto simp: lstrip_def)
  then have "\<not> is_space (hd (lstrip l))"
    unfolding lstrip_def by (rule hd_dropWhile)
  moreover from n have "hd (lstrip l) \<in> set (rev (lstrip l))" by simp
  ultimately have "dropWhile is_space (rev (lstrip l)) \<noteq> []" by auto
  then show ?thesis by (simp add: strip_def rstrip_def)
qed

lemma str_int_digit: "n < 10 \<Longrightarrow> str_int (int n) = [digit_char n]"
  by (simp add: str_int_def str_nat.simps)

lemma render_block_heading:
  "render_block (process_block (heading_block lv c)) =
   ''<h'' @ str_int lv @ ''>'' @ replace_inline c @ ''</h'' @ str_int lv @ ''>''"
  by (simp add: render_block_def process_block_def heading_block_def no_keys_def get_str_def
        get_int_def)

lemma re_sub_from_id:
  assumes "needs Q r" and "\<forall>c \<in> set s. \<not> Q c"
  shows "re_sub_from r tm p s = s"
  using assms(2)
proof (induction s arbitrary: p)
  case Nil
  have "matches r \<lparr>pos = p, rest = [], grps = Map.empty\<rparr> = []"
    using needsD [OF assms(1), of "\<lparr>pos = p, rest = [], grps = Map.empty\<rparr>"] by auto
  then show ?case by (simp add: re_sub_from.simps)
next
  case (Cons c s)
  have "matches r \<lparr>pos = p, rest = c # s, grps = Map.empty\<rparr> = []"
    using needsD [OF assms(1), of "\<lparr>pos = p, rest = c # s, grps = Map.empty\<rparr>"] Cons.prems
    by auto
  moreover from Cons have "re_sub_from r tm (Suc p) s = s" by simp
  ultimately show ?case by (simp add: re_sub_from.simps [of r tm p "c # s"])
qed

lemma needs_Chr': "Q c \<Longrightarrow> needs Q (Chr c)"
  by (rule needs_mono [OF needs_Chr]) simp

lemma sub_image_id: "CHR ''!'' \<notin> set s \<Longrightarrow> sub_image s = s"
  unfolding sub_image_def re_sub_def RE_IMAGE_def
  by (rule re_sub_from_id [where Q = "\<lambda>c. c = CHR ''!''"]) (auto intro!: needs_seqs needs_Chr)

lemma sub_link_id: "CHR ''['' \<notin> set s \<Longrightarrow> sub_link s = s"
  unfolding sub_link_def re_sub_def RE_LINK_def
  by (rule re_sub_from_id [where Q = "\<lambda>c. c = CHR ''[''"]) (auto intro!: needs_seqs needs_Chr)

lemma sub_code_id: "CHR ''`'' \<notin> set s \<Longrightarrow> sub_code s = s"
  unfolding sub_code_def re_sub_def RE_CODE_def
  by (rule re_sub_from_id [where Q = "\<lambda>c. c = CHR ''`''"]) (auto intro!: needs_seqs needs_Chr)

lemma sub_bold_id: "CHR ''*'' \<notin> set s \<Longrightarrow> CHR ''_'' \<notin> set s \<Longrightarrow> sub_bold s = s"
  unfolding sub_bold_def re_sub_def RE_BOLD_def
  by (rule re_sub_from_id [where Q = "\<lambda>c. c = CHR ''*'' \<or> c = CHR ''_''"])
     (auto intro!: needs_seqs needs_Grp needs_Alt needs_Lit')

lemma sub_italic_id: "CHR ''*'' \<notin> set s \<Longrightarrow> CHR ''_'' \<notin> set s \<Longrightarrow> sub_italic s = s"
  unfolding sub_italic_def re_sub_def RE_ITALIC_def
  by (rule re_sub_from_id [where Q = "\<lambda>c. c = CHR ''*'' \<or> c = CHR ''_''"])
     (auto intro!: needs_seqs needs_Grp needs_Alt needs_Chr')

lemma replace_inline_plain:
  assumes "\<forall>c \<in> set s. c \<notin> set ''![`*_''"
  shows "replace_inline s = s"
proof -
  from assms have "CHR ''!'' \<notin> set s" "CHR ''['' \<notin> set s" "CHR ''`'' \<notin> set s"
    "CHR ''*'' \<notin> set s" "CHR ''_'' \<notin> set s"
    by auto
  then show ?thesis
    by (simp add: replace_inline_def sub_image_id sub_link_id sub_code_id sub_bold_id sub_italic_id)
qed

lemma set_strip: "set (strip s) \<subseteq> set s"
proof -
  have "set (rstrip x) \<subseteq> set x" for x
    unfolding rstrip_def using set_dropWhileD [of _ is_space "rev x"] by auto
  moreover have "set (lstrip s) \<subseteq> set s"
    unfolding lstrip_def using set_dropWhileD [of _ is_space s] by auto
  ultimately show ?thesis unfolding strip_def by blast
qed

section \<open>The converter on blank input\<close>

lemma lstrip_blank: "\<forall>c \<in> set s. is_space c \<Longrightarrow> lstrip s = []"
  by (simp add: lstrip_def)

text \<open>
  Claim C4.  For every input that is empty or consists of whitespace characters only,
  \<open>convert\<close> returns the empty string; the guard is the first statement of \<open>convert\<close>,
  so the lexer, the parser, the inline processor and the renderer are not reached.  (The
  empty input is the case of an empty set of characters.)
\<close>

theorem convert_blank:
  "\<forall>c \<in> set markdown. is_space c \<Longrightarrow> convert markdown = Inr []"
  by (simp add: convert_def strip_def rstrip_def lstrip_blank)

theorem convert_blank_witness:
  "list_all is_space ('' '' @ [CHR 0x0A, CHR 0x09] @ ''  '') \<and>
   convert ('' '' @ [CHR 0x0A, CHR 0x09] @ ''  '') = Inr []"
proof -
  have h: "\<forall>c \<in> set ('' '' @ [CHR 0x0A, CHR 0x09] @ ''  ''). is_space c"
    by (simp add: is_space_def)
  from convert_blank [OF h] h show ?thesis by (simp add: list_all_iff)
qed

section \<open>The inline processor keeps the frame\<close>

lemma process_block_frame:
  "btype (process_block b) = btype b \<and> level (process_block b) = level b \<and>
   language (process_block b) = language b \<and> indent (process_block b) = indent b \<and>
   number (process_block b) = number b \<and>
   content (process_block b) = map_option replace_inline (content b)"
  by (simp add: process_block_def split: option.splits)

lemma process_block_no_content: "content b = None \<Longrightarrow> process_block b = b"
  by (simp add: process_block_def)

text \<open>
  Claim C10.  \<open>process_inline\<close> returns as many blocks as it was given, in the same
  order; in every block the fields \<open>type\<close>, \<open>level\<close>, \<open>indent\<close>, \<open>number\<close> and
  \<open>language\<close> are unchanged and only \<open>content\<close> is rewritten; a block without a
  \<open>content\<close> field is returned as it is.  (In the source the blocks are dictionaries
  updated in place; the parser never puts the same dictionary into its list twice, and
  the fields named here are not written at all.)
\<close>

theorem process_inline_frame:
  "length (process_inline blocks) = length blocks \<and>
   (\<forall>i < length blocks.
      btype (process_inline blocks ! i) = btype (blocks ! i) \<and>
      level (process_inline blocks ! i) = level (blocks ! i) \<and>
      indent (process_inline blocks ! i) = indent (blocks ! i) \<and>
      number (process_inline blocks ! i) = number (blocks ! i) \<and>
      language (process_inline blocks ! i) = language (blocks ! i) \<and>
      content (process_inline blocks ! i) = map_option replace_inline (content (blocks ! i)) \<and>
      (content (blocks ! i) = None \<longrightarrow> process_inline blocks ! i = blocks ! i))"
  by (simp add: process_inline_def process_block_frame process_block_no_content)

theorem process_inline_frame_witness:
  "length (process_inline [hr_block, ol_block 2 7 ''*a*'']) = 2 \<and>
   process_inline [hr_block, ol_block 2 7 ''*a*''] ! 0 = hr_block \<and>
   number (process_inline [hr_block, ol_block 2 7 ''*a*''] ! 1) = Some 7 \<and>
   indent (process_inline [hr_block, ol_block 2 7 ''*a*''] ! 1) = Some 2 \<and>
   btype (process_inline [hr_block, ol_block 2 7 ''*a*''] ! 1) = Some ''ol''"
  using process_inline_frame [of "[hr_block, ol_block 2 7 ''*a*'']"]
  by (simp add: hr_block_def ol_block_def no_keys_def All_less_Suc2 numeral_2_eq_2)

section \<open>Code blocks\<close>






lemma code_block_example:
  "convert (''```'' @ [CHR 0x0A] @ ''**b**'' @ [CHR 0x0A] @ ''```'') =
   Inr ''<pre><code>&lt;strong&gt;b&lt;/strong&gt;</code></pre>''"
  by code_simp

section \<open>Horizontal rules\<close>

lemma parse_one_not_hr:
  assumes "re_match RE_HR l = None"
  shows "parse [l] \<noteq> Inr [hr_block]"
proof (cases "re_match RE_BLOCKQUOTE l \<noteq> None")
  case True
  from parse_blockquote [OF this, of "[]"] show ?thesis
    by (simp add: blockquote_of_def Let_def blockquote_block_def hr_block_def no_keys_def)
next
  case False
  with assms show ?thesis
    by (simp add: parse.simps(2) hr_block_def heading_block_def code_block_def ul_block_def
          ol_block_def paragraph_block_def no_keys_def split: option.splits prod.splits sum.splits)
qed

text \<open>
  Claim C5.  A line on its own is parsed to a horizontal rule exactly when its stripped
  form is one of the three strings \<open>***\<close>, \<open>---\<close> and \<open>___\<close>, and the rule is
  rendered as \<open><hr/>\<close>; in particular a line whose stripped form is a run of four or
  more equal characters is not a horizontal rule.
\<close>

theorem hr_exact:
  "(parse [l] = Inr [hr_block] \<longleftrightarrow> strip l \<in> {''***'', ''---'', ''___''}) \<and>
   render (process_inline [hr_block]) = ''<hr/>'' \<and>
   (4 \<le> n \<longrightarrow> strip l = replicate n c \<longrightarrow> parse [l] \<noteq> Inr [hr_block])"
proof (intro conjI impI)
  show iff: "parse [l] = Inr [hr_block] \<longleftrightarrow> strip l \<in> {''***'', ''---'', ''___''}"
  proof (cases "re_match RE_HR l = None")
    case True
    with parse_one_not_hr [OF True] hr_iff [of l] show ?thesis by simp
  next
    case False
    with parse_hr [OF False, of "[]"] hr_iff [of l] show ?thesis by simp
  qed
  show "render (process_inline [hr_block]) = ''<hr/>''"
    by (simp add: render_def process_inline_def process_block_def render_block_def hr_block_def
          no_keys_def)
  assume "4 \<le> n" and "strip l = replicate n c"
  then have "length (strip l) \<noteq> 3" by simp
  then have "strip l \<notin> {''***'', ''---'', ''___''}" by auto
  with iff show "parse [l] \<noteq> Inr [hr_block]" by simp
qed

theorem hr_exact_witness:
  "parse [''  ---  ''] = Inr [hr_block] \<and> parse [''----''] \<noteq> Inr [hr_block]"
proof -
  have a: "strip ''  ---  '' = ''---''" by code_simp
  have b: "strip ''----'' = ''----''" by code_simp
  have r: "replicate 4 (CHR ''-'') = ''----''" by code_simp
  from hr_exact [of "''  ---  ''" 4 "CHR ''-''"] hr_exact [of "''----''" 4 "CHR ''-''"] a b r
  show ?thesis by simp
qed

section \<open>Blockquotes\<close>

lemma render_block_blockquote:
  "render_block (process_block (blockquote_block lv c)) =
   str_times ''<blockquote>'' lv @ replace_inline c @ str_times ''</blockquote>'' lv"
  by (simp add: render_block_def process_block_def blockquote_block_def no_keys_def get_str_def
        get_int_def)

lemma blockquote_of_eq:
  "blockquote_of l =
   blockquote_block (if take 1 l = ''>'' then int (length (takeWhile (\<lambda>x. x = CHR ''>'') l)) else 1)
     (strip (dropWhile (\<lambda>x. x = CHR ''>'') l))"
proof -
  have "int (length l) - int (length (dropWhile (\<lambda>x. x = CHR ''>'') l)) =
        int (length (takeWhile (\<lambda>x. x = CHR ''>'') l))"
    by (induction l) auto
  moreover have "length (takeWhile (\<lambda>x. x = CHR ''>'') l) = 0 \<longleftrightarrow> take 1 l \<noteq> ''>''"
    by (cases l) auto
  ultimately show ?thesis
    by (simp add: blockquote_of_def lstrip_char_def Let_def)
qed

text \<open>
  Claim C1, as amended.  A line at the cursor that matches the blockquote pattern gives
  one Blockquote block for that line, and the parser goes on with the next line.  The
  level is counted from the first character of the line: a line that starts with \<open>>\<close> has
  the length of its leading run of \<open>>\<close> as its level and the stripped rest of the line as
  its content; a line with whitespace in front of its first \<open>>\<close> has level 1, whatever
  the length of its run of \<open>>\<close>.  The renderer wraps the content of the block, after the
  inline pass, in level opening and level closing tags.
\<close>

theorem blockquote_line:
  assumes "re_match RE_BLOCKQUOTE l \<noteq> None"
  shows "\<exists>lv c.
     parse (l # ts) = prepend [blockquote_block lv c] (parse ts) \<and>
     lv = (if take 1 l = ''>'' then int (length (takeWhile (\<lambda>x. x = CHR ''>'') l)) else 1) \<and>
     (take 1 l = ''>'' \<longrightarrow> c = strip (dropWhile (\<lambda>x. x = CHR ''>'') l)) \<and>
     rendered (parse (l # ts)) =
       prepend (concat (replicate (nat lv) ''<blockquote>'') @ replace_inline c @
                concat (replicate (nat lv) ''</blockquote>'')) (rendered (parse ts))"
proof -
  let ?lv = "if take 1 l = ''>'' then int (length (takeWhile (\<lambda>x. x = CHR ''>'') l)) else 1"
  let ?c = "strip (dropWhile (\<lambda>x. x = CHR ''>'') l)"
  have p: "parse (l # ts) = prepend [blockquote_block ?lv ?c] (parse ts)"
    using parse_blockquote [OF assms, of ts] by (simp only: blockquote_of_eq)
  have r: "rendered (parse (l # ts)) =
       prepend (concat (replicate (nat ?lv) ''<blockquote>'') @ replace_inline ?c @
                concat (replicate (nat ?lv) ''</blockquote>'')) (rendered (parse ts))"
    by (simp add: p rendered_prepend render_def process_inline_def render_block_blockquote
          str_times_def)
  show ?thesis
    by (intro exI [of _ ?lv] exI [of _ ?c] conjI impI refl p r)
qed

theorem blockquote_line_witness:
  "rendered (parse [''>> Level 2'', ''# h'']) =
     Inr ''<blockquote><blockquote>Level 2</blockquote></blockquote><h1>h</h1>''"
proof -
  have m: "re_match RE_BLOCKQUOTE ''>> Level 2'' \<noteq> None" by code_simp
  have e: "strip (dropWhile (\<lambda>x. x = CHR ''>'') ''>> Level 2'') = ''Level 2''" by code_simp
  have i: "replace_inline ''Level 2'' = ''Level 2''" by code_simp
  have h: "rendered (parse [''# h'']) = Inr ''<h1>h</h1>''" by code_simp
  from blockquote_line [OF m, of "[''# h'']"] obtain lv c where
    lv: "lv = (if take 1 ''>> Level 2'' = ''>''
               then int (length (takeWhile (\<lambda>x. x = CHR ''>'') ''>> Level 2'')) else 1)" and
    c: "take 1 ''>> Level 2'' = ''>'' \<longrightarrow> c = strip (dropWhile (\<lambda>x. x = CHR ''>'') ''>> Level 2'')" and
    r: "rendered (parse [''>> Level 2'', ''# h'']) =
       prepend (concat (replicate (nat lv) ''<blockquote>'') @ replace_inline c @
                concat (replicate (nat lv) ''</blockquote>'')) (rendered (parse [''# h'']))"
    by blast
  from lv have "nat lv = Suc (Suc 0)" by simp
  moreover from c e have "c = ''Level 2''" by simp
  ultimately show ?thesis using r i h by simp
qed

text \<open>
  The level does depend on whitespace in front of the \<open>>\<close>: the source counts with
  \<open>line.lstrip('>')\<close>, which removes nothing from a line that starts with a blank, and
  then raises the level 0 to 1.  With a blank in front, a run of two \<open>>\<close> gives level 1,
  and the run stays in the content.
\<close>

theorem blockquote_level_counterexample:
  "re_match RE_BLOCKQUOTE '' >> x'' \<noteq> None \<and>
   length (takeWhile (\<lambda>c. c = CHR ''>'') (lstrip '' >> x'')) = 2 \<and>
   parse ['' >> x''] = Inr [blockquote_block 1 ''>> x''] \<and>
   parse [''>> x''] = Inr [blockquote_block 2 ''x''] \<and>
   rendered (parse ['' >> x'']) = Inr ''<blockquote>>> x</blockquote>''"
  by code_simp

section \<open>List items\<close>

lemma render_block_ul:
  "render_block (process_block (ul_block ind c)) = ''<ul><li>'' @ replace_inline c @ ''</li></ul>''"
  by (simp add: render_block_def process_block_def ul_block_def no_keys_def get_str_def)


lemma parse_unordered_lines:
  assumes "\<forall>l \<in> set ls. re_match RE_UNORDERED l \<noteq> None"
  shows "parse (ls @ ts) = prepend (map (\<lambda>l. ul_block (ul_indent l) (ul_text l)) ls) (parse ts)"
  using assms
proof (induction ls)
  case Nil
  then show ?case by simp
next
  case (Cons l ls)
  from Cons.prems obtain m where m: "re_match RE_UNORDERED l = Some m" by auto
  from Cons.prems have "\<forall>l \<in> set ls. re_match RE_UNORDERED l \<noteq> None" by simp
  from Cons.IH [OF this] parse_unordered [OF m, of "ls @ ts"] m show ?case
    by (simp add: ul_indent_def ul_text_def)
qed

text \<open>
  Claim C7.  \<open>K\<close> consecutive lines that match the pattern of an unordered item, at the
  cursor, give \<open>K\<close> blocks, one per line and in the order of the lines, and the output
  is the concatenation of \<open>K\<close> fragments \<open><ul><li>...</li></ul>\<close>, each with its own
  \<open><ul>\<close>, followed by the output for the lines after them.
\<close>

theorem unordered_items_separate:
  assumes "\<forall>l \<in> set ls. re_match RE_UNORDERED l \<noteq> None"
  shows "parse (ls @ ts) =
           prepend (map (\<lambda>l. ul_block (ul_indent l) (ul_text l)) ls) (parse ts) \<and>
         rendered (parse (ls @ ts)) =
           prepend (concat (map (\<lambda>l. ''<ul><li>'' @ replace_inline (ul_text l) @ ''</li></ul>'') ls))
             (rendered (parse ts))"
proof -
  have r: "render (process_inline (map (\<lambda>l. ul_block (ul_indent l) (ul_text l)) xs)) =
           concat (map (\<lambda>l. ''<ul><li>'' @ replace_inline (ul_text l) @ ''</li></ul>'') xs)" for xs
    by (induction xs) (simp_all add: render_Cons process_inline_Cons render_block_ul render_def
          process_inline_def)
  show ?thesis
    by (simp only: parse_unordered_lines [OF assms] rendered_prepend r simp_thms)
qed

theorem unordered_items_separate_witness:
  "rendered (parse [''- Item 1'', ''  * Item 2'', ''+ Item 3'', ''text'']) =
   Inr ''<ul><li>Item 1</li></ul><ul><li>Item 2</li></ul><ul><li>Item 3</li></ul><p>text</p>''"
proof -
  have m: "\<forall>l \<in> set [''- Item 1'', ''  * Item 2'', ''+ Item 3'']. re_match RE_UNORDERED l \<noteq> None"
    by code_simp
  have t: "ul_text ''- Item 1'' = ''Item 1''" "ul_text ''  * Item 2'' = ''Item 2''"
    "ul_text ''+ Item 3'' = ''Item 3''"
    by code_simp+
  have i: "replace_inline ''Item 1'' = ''Item 1''" "replace_inline ''Item 2'' = ''Item 2''"
    "replace_inline ''Item 3'' = ''Item 3''"
    by code_simp+
  have p: "rendered (parse [''text'']) = Inr ''<p>text</p>''" by code_simp
  from unordered_items_separate [OF m, of "[''text'']", THEN conjunct2] t i p
  show ?thesis by simp
qed

section \<open>Fenced code blocks\<close>

lemma closing_fence_iff: "closing_fence t \<longleftrightarrow> re_match RE_FENCE_END t \<noteq> None"
  unfolding closing_fence_def fence_end_iff list_all_iff ..

lemma not_closing: "(\<lambda>t. re_match RE_FENCE_END t = None) = (\<lambda>t. \<not> closing_fence t)"
  by (simp add: closing_fence_iff)

text \<open>
  Claim C8.  After a line that matches the pattern of an opening fence, the lines up to
  the first closing fence are joined by newlines, as they are, into the content of one
  code block, whatever they look like; the closing fence is consumed and is not part of
  the content, and the parser goes on after it.  Without a closing fence all the lines
  left are the content, and the parser ends with that block.
\<close>

theorem fenced_block:
  assumes "re_match RE_FENCE_START l = Some m" and "\<forall>t \<in> set body. \<not> closing_fence t"
  shows "(closing_fence f \<longrightarrow>
            parse (l # body @ f # ts) =
              prepend [code_block (group m 1) (join [CHR 0x0A] body)] (parse ts)) \<and>
         parse (l # body) = Inr [code_block (group m 1) (join [CHR 0x0A] body)]"
proof -
  from assms(2) have t: "takeWhile (\<lambda>t. \<not> closing_fence t) (body @ xs) =
      body @ takeWhile (\<lambda>t. \<not> closing_fence t) xs" for xs
    by (simp add: takeWhile_append2)
  from assms(2) have d: "dropWhile (\<lambda>t. \<not> closing_fence t) (body @ xs) =
      dropWhile (\<lambda>t. \<not> closing_fence t) xs" for xs
    by (simp add: dropWhile_append2)
  have a: "parse (l # body @ f # ts) =
           prepend [code_block (group m 1) (join [CHR 0x0A] body)] (parse ts)"
    if "closing_fence f"
    using that by (simp add: parse_fence [OF assms(1)] not_closing t d)
  have b: "parse (l # body) = Inr [code_block (group m 1) (join [CHR 0x0A] body)]"
  proof -
    from assms(2) have tw: "takeWhile (\<lambda>t. \<not> closing_fence t) body = body"
      by (simp add: takeWhile_eq_all_conv)
    from assms(2) have dw: "dropWhile (\<lambda>t. \<not> closing_fence t) body = []"
      by simp
    show ?thesis unfolding parse_fence [OF assms(1)] not_closing tw dw by simp
  qed
  from a b show ?thesis by blast
qed

theorem fenced_block_witness:
  "parse [''```py'', ''# no heading'', ''- no item'', ''> no quote'', ''---'', ''```  '', ''# h''] =
     prepend [code_block ''py'' (''# no heading'' @ [CHR 0x0A] @ ''- no item'' @ [CHR 0x0A] @
                        ''> no quote'' @ [CHR 0x0A] @ ''---'')] (parse [''# h'']) \<and>
   parse [''```py'', ''# no heading'', ''- no item'', ''> no quote'', ''---''] =
     Inr [code_block ''py'' (''# no heading'' @ [CHR 0x0A] @ ''- no item'' @ [CHR 0x0A] @
                        ''> no quote'' @ [CHR 0x0A] @ ''---'')]"
proof -
  have "re_match RE_FENCE_START ''```py'' \<noteq> None" by code_simp
  then obtain m where m: "re_match RE_FENCE_START ''```py'' = Some m" by blast
  have "group (the (re_match RE_FENCE_START ''```py'')) 1 = ''py''" by code_simp
  with m have g: "group m 1 = ''py''" by simp
  have b: "\<forall>t \<in> set [''# no heading'', ''- no item'', ''> no quote'', ''---'']. \<not> closing_fence t"
    by code_simp
  have f: "closing_fence ''```  ''" by code_simp
  from fenced_block [OF m b, of "''```  ''" "[''# h'']"] f g show ?thesis by simp
qed

section \<open>Headings\<close>

lemma heading_parse:
  assumes "1 \<le> N" and "N \<le> 6" and "\<forall>c \<in> set text. \<not> is_linebreak c"
  shows "parse [replicate N (CHR ''#'') @ '' '' @ text] = Inr [heading_block (int N) (strip text)]"
proof -
  let ?l = "replicate N (CHR ''#'') @ '' '' @ text"
  have "is_linebreak (CHR 0x0A)" by (simp add: is_linebreak_def)
  with assms(3) have nl: "CHR 0x0A \<notin> set text" by auto
  from heading_groups [OF assms(1,2) nl] obtain m where
    m: "re_match RE_HEADING ?l = Some m" and g1: "group m 1 = replicate N (CHR ''#'')" and
    g2: "group m 2 = dropWhile is_space text"
    by blast
  have "parse [?l] =
        prepend [heading_block (int (length (group m 1))) (strip (group m 2))] (parse [])"
    by (rule parse_heading [OF m])
  then show p: "parse [?l] = Inr [heading_block (int N) (strip text)]"
    unfolding g1 g2 strip_lstrip by simp
qed


lemma heading_convert:
  assumes "1 \<le> N" and "N \<le> 6" and "\<forall>c \<in> set text. \<not> is_linebreak c"
  shows "convert (replicate N (CHR ''#'') @ '' '' @ text) =
           Inr (''<h'' @ [digit_char N] @ ''>'' @ replace_inline (strip text) @
                ''</h'' @ [digit_char N] @ ''>'')"
proof -
  let ?l = "replicate N (CHR ''#'') @ '' '' @ text"
  have "\<not> is_linebreak (CHR ''#'')" "\<not> is_linebreak (CHR '' '')"
    by (simp_all add: is_linebreak_def)
  with assms(3) have lb: "\<forall>c \<in> set ?l. \<not> is_linebreak c"
    by auto
  from assms(1) have ne: "?l \<noteq> []" by simp
  from assms(1) have "CHR ''#'' \<in> set ?l" by (cases N) auto
  then have st: "strip ?l \<noteq> []"
    by (rule strip_not_Nil) (simp add: is_space_def)
  from assms(2) have d: "str_int (int N) = [digit_char N]" by (intro str_int_digit) simp
  have t: "tokenize ?l = [?l]" by (rule tokenize_one [OF lb ne])
  have "convert ?l = rendered (parse (tokenize ?l))"
    using ne st by (simp only: convert_rendered if_False simp_thms)
  also have "\<dots> = Inr (render_block (process_block (heading_block (int N) (strip text))))"
    unfolding t heading_parse [OF assms] by (simp add: render_def process_inline_def)
  finally show ?thesis
    unfolding render_block_heading d by simp
qed


text \<open>
  Claim C6.  For \<open>N\<close> from 1 to 6, the input that is \<open>N\<close> characters \<open>#\<close>, a space and
  a heading text on one line is parsed to one heading of level \<open>N\<close> whose content is
  the stripped text, and is converted to \<open><hN>\<close>, the content, \<open></hN>\<close>.  The content
  goes through the inline pass like that of every block; a text with none of the
  characters the inline patterns start with comes out as it is.
\<close>

theorem heading_line:
  assumes "1 \<le> N" and "N \<le> 6" and "\<forall>c \<in> set text. \<not> is_linebreak c"
  shows "parse [replicate N (CHR ''#'') @ '' '' @ text] = Inr [heading_block (int N) (strip text)] \<and>
         convert (replicate N (CHR ''#'') @ '' '' @ text) =
           Inr (''<h'' @ [digit_char N] @ ''>'' @ replace_inline (strip text) @
                ''</h'' @ [digit_char N] @ ''>'') \<and>
         ((\<forall>c \<in> set text. c \<notin> set ''![`*_'') \<longrightarrow> replace_inline (strip text) = strip text)"
proof (intro conjI impI)
  show "parse [replicate N (CHR ''#'') @ '' '' @ text] = Inr [heading_block (int N) (strip text)]"
    by (rule heading_parse [OF assms])
  show "convert (replicate N (CHR ''#'') @ '' '' @ text) =
           Inr (''<h'' @ [digit_char N] @ ''>'' @ replace_inline (strip text) @
                ''</h'' @ [digit_char N] @ ''>'')"
    by (rule heading_convert [OF assms])
  assume "\<forall>c \<in> set text. c \<notin> set ''![`*_''"
  with set_strip [of "text"] have "\<forall>c \<in> set (strip text). c \<notin> set ''![`*_''" by blast
  then show "replace_inline (strip text) = strip text" by (rule replace_inline_plain)
qed

theorem heading_line_witness:
  "convert ''### Level 3  '' = Inr ''<h3>Level 3</h3>'' \<and>
   convert ''# a *b*'' = Inr ''<h1>a <em>b</em></h1>''"
proof -
  have a: "\<forall>c \<in> set ''Level 3  ''. \<not> is_linebreak c" by code_simp
  have b: "\<forall>c \<in> set ''a *b*''. \<not> is_linebreak c" by code_simp
  have c: "\<forall>c \<in> set ''Level 3  ''. c \<notin> set ''![`*_''" by code_simp
  have s: "strip ''Level 3  '' = ''Level 3''" "strip ''a *b*'' = ''a *b*''" by code_simp+
  have i: "replace_inline ''a *b*'' = ''a <em>b</em>''" by code_simp
  have d: "digit_char 3 = CHR ''3''" "digit_char 1 = CHR ''1''" by code_simp+
  have r: "replicate 3 (CHR ''#'') @ '' '' @ ''Level 3  '' = ''### Level 3  ''"
    "replicate 1 (CHR ''#'') @ '' '' @ ''a *b*'' = ''# a *b*''" by code_simp+
  have "convert (replicate 3 (CHR ''#'') @ '' '' @ ''Level 3  '') =
          Inr (''<h'' @ [digit_char 3] @ ''>'' @ strip ''Level 3  '' @ ''</h'' @ [digit_char 3] @ ''>'')"
    using heading_line [of 3 "''Level 3  ''", OF _ _ a] c by simp
  then have x: "convert ''### Level 3  '' = Inr ''<h3>Level 3</h3>''"
    unfolding r s d by simp
  have "convert (replicate 1 (CHR ''#'') @ '' '' @ ''a *b*'') =
          Inr (''<h'' @ [digit_char 1] @ ''>'' @ replace_inline (strip ''a *b*'') @
               ''</h'' @ [digit_char 1] @ ''>'')"
    using heading_line [of 1 "''a *b*''", OF _ _ b] by simp
  then have y: "convert ''# a *b*'' = Inr ''<h1>a <em>b</em></h1>''"
    unfolding r s i d by simp
  from x y show ?thesis by simp
qed

section \<open>Ordered items\<close>


























end
